theory Spec2Isabelle
  imports Main
begin

section \<open>Texts\<close>

text \<open>
  A text is an Isabelle \<open>string\<close>: a sequence of 8-bit characters, read as the UTF-16 code
  units below 256 of a JavaScript string. On these units \<open>String.prototype.trim\<close> and
  \<open>String.prototype.toLowerCase\<close> are what ECMAScript defines: the white space and line
  terminators of the range are U+0009 to U+000D, U+0020 and U+00A0; the upper-case letters are
  \<open>A\<close> to \<open>Z\<close> and U+00C0 to U+00DE without U+00D7, each 32 below its lower-case letter.
\<close>

definition isWhiteSpace :: "char \<Rightarrow> bool" where
  "isWhiteSpace c =
     (c \<in> set [CHR 0x09, CHR 0x0A, CHR 0x0B, CHR 0x0C, CHR 0x0D, CHR 0x20, CHR 0xA0])"

definition trim :: "string \<Rightarrow> string" where
  "trim s = rev (dropWhile isWhiteSpace (rev (dropWhile isWhiteSpace s)))"

definition isUpperUnit :: "char \<Rightarrow> bool" where
  "isUpperUnit c =
     (let n = (of_char c :: nat)
      in (65 \<le> n \<and> n \<le> 90) \<or> (192 \<le> n \<and> n \<le> 222 \<and> n \<noteq> 215))"

fun lowerUnit :: "char \<Rightarrow> char" where
  "lowerUnit (Char b0 b1 b2 b3 b4 b5 b6 b7) =
     (if isUpperUnit (Char b0 b1 b2 b3 b4 b5 b6 b7) then Char b0 b1 b2 b3 b4 True b6 b7
      else Char b0 b1 b2 b3 b4 b5 b6 b7)"

definition toLowerCase :: "string \<Rightarrow> string" where
  "toLowerCase s = map lowerUnit s"

section \<open>Agent cycling (\<open>cycleTuiToAgent\<close>)\<close>

record Agent =
  name :: string
  mode :: "string option"
  hidden :: "bool option"

text \<open>The filter \<open>a.mode !== 'subagent' && !a.hidden\<close>; an absent field is \<open>None\<close>.\<close>

definition isPrimary :: "Agent \<Rightarrow> bool" where
  "isPrimary a = (mode a \<noteq> Some ''subagent'' \<and> hidden a \<noteq> Some True)"

text \<open>\<open>Array.prototype.findIndex\<close>: the first index whose element passes, or \<open>-1\<close>.\<close>

fun findIndexFrom :: "('a \<Rightarrow> bool) \<Rightarrow> int \<Rightarrow> 'a list \<Rightarrow> int" where
  "findIndexFrom P i [] = - 1"
| "findIndexFrom P i (x # xs) = (if P x then i else findIndexFrom P (i + 1) xs)"

definition findIndex :: "('a \<Rightarrow> bool) \<Rightarrow> 'a list \<Rightarrow> int" where
  "findIndex P xs = findIndexFrom P 0 xs"

text \<open>
  The remainder operator \<open>%\<close> of JavaScript on integers, for a divisor other than zero: the
  result takes the sign of the dividend.
\<close>

definition js_rem :: "int \<Rightarrow> int \<Rightarrow> int" where
  "js_rem a b = sgn a * (\<bar>a\<bar> mod \<bar>b\<bar>)"

text \<open>
  \<open>currentAgent ?? primaryAgents[0]?.name\<close>: the name of the first primary agent stands in for
  an undefined current agent; with no primary agent the name stays undefined.
\<close>

definition currentNameOf :: "Agent list \<Rightarrow> string option \<Rightarrow> string option" where
  "currentNameOf primaryAgents currentAgent =
     (case currentAgent of
        Some c \<Rightarrow> Some c
      | None \<Rightarrow> (case primaryAgents of [] \<Rightarrow> None | a # _ \<Rightarrow> Some (name a)))"

text \<open>
  The body of \<open>cycleTuiToAgent\<close> from the filter to the constant \<open>steps\<close>; \<open>None\<close> is one of
  the two early \<open>return false\<close>. A target that is found makes the list non-empty, so the
  divisor of \<open>%\<close> is never zero where the remainder is taken.
\<close>

definition cycleSteps :: "Agent list \<Rightarrow> string \<Rightarrow> string option \<Rightarrow> int option" where
  "cycleSteps allAgents targetAgent currentAgent =
     (let primaryAgents = filter isPrimary allAgents;
          targetIdx = findIndex (\<lambda>a. name a = targetAgent) primaryAgents
      in if targetIdx = - 1 then None
         else
           let currentName = currentNameOf primaryAgents currentAgent;
               currentIdx = findIndex (\<lambda>a. Some (name a) = currentName) primaryAgents
           in if currentIdx = - 1 then None
              else Some (js_rem (targetIdx - currentIdx + int (length primaryAgents))
                                (int (length primaryAgents))))"

text \<open>
  The loop \<open>for (let i = 0; i < steps; i++) await executeTuiCommand(client, 'agent.cycle')\<close>.
  The terminal is a collaborator: \<open>execOk k\<close> says whether the command issued after \<open>k\<close>
  earlier ones resolves; a command that rejects is caught by the function's \<open>catch\<close>, which
  returns \<open>false\<close>. The result is the returned boolean and the number of commands issued.
\<close>

function cycleLoop :: "(nat \<Rightarrow> bool) \<Rightarrow> int \<Rightarrow> int \<Rightarrow> nat \<Rightarrow> bool \<times> nat" where
  "cycleLoop execOk steps i issued =
     (if i < steps
      then (if execOk issued then cycleLoop execOk steps (i + 1) (issued + 1)
            else (False, issued + 1))
      else (True, issued))"
  by pat_completeness auto
termination
  by (relation "measure (\<lambda>(execOk, steps, i, issued). nat (steps - i))") auto

declare cycleLoop.simps [simp del]

text \<open>
  \<open>agentsResult\<close> is what \<open>client.app.agents()\<close> gives: \<open>None\<close> when the call rejects or
  carries no list, which the \<open>catch\<close> turns into \<open>false\<close>.
\<close>

definition cycleTuiToAgent ::
  "Agent list option \<Rightarrow> (nat \<Rightarrow> bool) \<Rightarrow> string \<Rightarrow> string option \<Rightarrow> bool \<times> nat" where
  "cycleTuiToAgent agentsResult execOk targetAgent currentAgent =
     (case agentsResult of
        None \<Rightarrow> (False, 0)
      | Some allAgents \<Rightarrow>
          (case cycleSteps allAgents targetAgent currentAgent of
             None \<Rightarrow> (False, 0)
           | Some steps \<Rightarrow> cycleLoop execOk steps 0 0))"

text \<open>An agent as the examples of the specification name it: primary, not hidden.\<close>

definition primaryAgent :: "string \<Rightarrow> Agent" where
  "primaryAgent n = \<lparr>name = n, mode = None, hidden = None\<rparr>"

text \<open>
  The index of the specification, \<open>index(x)\<close>: the position of the first agent of that name.
  It is stated apart from \<open>findIndex\<close>, to compare the two.
\<close>

definition indexOfName :: "Agent list \<Rightarrow> string \<Rightarrow> nat \<Rightarrow> bool" where
  "indexOfName agents n i =
     (i < length agents \<and> name (agents ! i) = n \<and> n \<notin> name ` set (take i agents))"

section \<open>Echo suppression (\<open>normalizeMessage\<close>, \<open>addUIMessage\<close>, \<open>isFromUI\<close>)\<close>

text \<open>\<open>content.replace(/\r\n/g, '\n')\<close>: every carriage return followed by a line feed.\<close>

fun replaceCRLF :: "string \<Rightarrow> string" where
  "replaceCRLF [] = []"
| "replaceCRLF [c] = [c]"
| "replaceCRLF (c # d # cs) =
     (if c = CHR 0x0D \<and> d = CHR 0x0A then CHR 0x0A # replaceCRLF cs
      else c # replaceCRLF (d # cs))"

definition normalizeMessage :: "string \<Rightarrow> string" where
  "normalizeMessage content = trim (replaceCRLF content)"

definition MAX_UI_MESSAGES :: nat where
  "MAX_UI_MESSAGES = 50"

text \<open>
  The buffer \<open>messagesFromUI\<close> is passed in and returned. \<open>push\<close> appends;
  \<open>splice(0, 40)\<close> removes the first 40 entries.
\<close>

definition addUIMessage :: "string \<Rightarrow> string list \<Rightarrow> string list" where
  "addUIMessage content messagesFromUI =
     (let pushed = messagesFromUI @ [normalizeMessage content]
      in if length pushed > MAX_UI_MESSAGES then drop 40 pushed else pushed)"

text \<open>\<open>splice(index, 1)\<close>: the entry at \<open>index\<close> leaves, the others keep their order.\<close>

definition spliceOne :: "nat \<Rightarrow> 'a list \<Rightarrow> 'a list" where
  "spliceOne index xs = take index xs @ drop (index + 1) xs"

text \<open>
  \<open>isFromUI\<close> returns its boolean and the buffer it leaves; \<open>indexOf\<close> is the first index
  of an equal entry, or \<open>-1\<close>.
\<close>

definition isFromUI :: "string \<Rightarrow> string list \<Rightarrow> bool \<times> string list" where
  "isFromUI content messagesFromUI =
     (let normalized = normalizeMessage content;
          index = findIndex (\<lambda>m. m = normalized) messagesFromUI
      in if index \<noteq> - 1 then (True, spliceOne (nat index) messagesFromUI)
         else (False, messagesFromUI))"

text \<open>A run of recordings, first to last.\<close>

definition recordAll :: "string list \<Rightarrow> string list \<Rightarrow> string list" where
  "recordAll messagesFromUI contents =
     foldl (\<lambda>buffer content. addUIMessage content buffer) messagesFromUI contents"

text \<open>Fifty-one texts, no two alike: \<open>a\<close>, \<open>aa\<close>, and so on.\<close>

definition exampleTexts :: "string list" where
  "exampleTexts = map (\<lambda>n. replicate (Suc n) (CHR ''a'')) [0..<51]"

section \<open>Forwarded message ids (\<open>trackSentMessage\<close>)\<close>

definition MAX_SENT_MESSAGE_IDS :: nat where
  "MAX_SENT_MESSAGE_IDS = 200"

text \<open>
  The registry is the pair of \<open>sentAssistantMessageIds\<close> and \<open>sentAssistantMessageQueue\<close>.
  \<open>queue.shift()\<close> takes the first entry; \<open>if (evicted)\<close> passes for a string that is not
  empty, and only then is the entry deleted from the set.
\<close>

definition trackSentMessage :: "string set \<times> string list \<Rightarrow> string \<Rightarrow> string set \<times> string list" where
  "trackSentMessage registry messageId =
     (case registry of (ids, queue) \<Rightarrow>
        if messageId \<in> ids then (ids, queue)
        else
          let ids1 = insert messageId ids;
              queue1 = queue @ [messageId]
          in if length queue1 > MAX_SENT_MESSAGE_IDS
             then (case queue1 of
                     [] \<Rightarrow> (ids1, queue1)
                   | evicted # queue2 \<Rightarrow>
                       (if evicted \<noteq> [] then (ids1 - {evicted}, queue2) else (ids1, queue2)))
             else (ids1, queue1))"

text \<open>A run of track operations, first to last.\<close>

definition trackAll :: "string set \<times> string list \<Rightarrow> string list \<Rightarrow> string set \<times> string list" where
  "trackAll registry messageIds = foldl trackSentMessage registry messageIds"

text \<open>
  The invariant of the registry as the specification words it: the set and the queue hold
  the same ids, the queue holds none twice, and neither holds more than the maximum.
\<close>

definition registryInvariant :: "string set \<times> string list \<Rightarrow> bool" where
  "registryInvariant registry =
     (case registry of (ids, queue) \<Rightarrow>
        ids = set queue \<and> distinct queue \<and> length queue \<le> MAX_SENT_MESSAGE_IDS
        \<and> card ids \<le> MAX_SENT_MESSAGE_IDS)"

text \<open>Two hundred ids, no two alike and none empty: \<open>m\<close>, \<open>m0\<close>, \<open>m00\<close>, and so on.\<close>

definition exampleIds :: "string list" where
  "exampleIds = map (\<lambda>n. CHR ''m'' # replicate n (CHR ''0'')) [0..<200]"

section \<open>Message parts (\<open>handlePartUpdate\<close>, \<open>buildMessageContent\<close>)\<close>

record MessagePartsState =
  order :: "string list"
  parts :: "string \<rightharpoonup> string"
  textByPartId :: "string \<rightharpoonup> string"

text \<open>
  A part of the SDK, by its \<open>type\<close>, with the fields the plugin reads. \<open>messageID\<close> is
  \<open>None\<close> when the part has no such property. A tool part carries its status and the line
  \<open>formatToolPartSafe\<close> renders for it. \<open>OtherPart\<close> is any further type.
\<close>

datatype Part =
    TextPart string "string option" string
  | FilePart string "string option" "string option" string "string option"
  | PatchPart string "string option"
  | ReasoningPart string "string option" string
  | ToolPart string "string option" string string
  | OtherPart string "string option"

fun messageID :: "Part \<Rightarrow> string option" where
  "messageID (TextPart i m t) = m"
| "messageID (FilePart i m mime url filename) = m"
| "messageID (PatchPart i m) = m"
| "messageID (ReasoningPart i m t) = m"
| "messageID (ToolPart i m status formatted) = m"
| "messageID (OtherPart i m) = m"

definition emptyState :: MessagePartsState where
  "emptyState = \<lparr>order = [], parts = Map.empty, textByPartId = Map.empty\<rparr>"

text \<open>
  \<open>getMessageState\<close> returns the state of the message and the store, in which a state that
  was missing is now recorded.
\<close>

definition getMessageState ::
  "string \<Rightarrow> (string \<rightharpoonup> MessagePartsState) \<Rightarrow> MessagePartsState \<times> (string \<rightharpoonup> MessagePartsState)" where
  "getMessageState messageId messagePartsById =
     (case messagePartsById messageId of
        Some state \<Rightarrow> (state, messagePartsById)
      | None \<Rightarrow> (emptyState, messagePartsById(messageId \<mapsto> emptyState)))"

text \<open>\<open>content\<close> is \<open>None\<close> for \<open>null\<close>; \<open>!content\<close> holds for \<open>null\<close> and for the empty string.\<close>

definition setPartContent :: "MessagePartsState \<Rightarrow> string \<Rightarrow> string option \<Rightarrow> MessagePartsState" where
  "setPartContent state pid content =
     (let state1 = (if pid \<in> set (order state) then state
                    else state\<lparr>order := order state @ [pid]\<rparr>)
      in case content of
           None \<Rightarrow> state1\<lparr>parts := (parts state1)(pid := None)\<rparr>
         | Some c \<Rightarrow>
             if c = [] then state1\<lparr>parts := (parts state1)(pid := None)\<rparr>
             else state1\<lparr>parts := (parts state1)(pid \<mapsto> c)\<rparr>)"

definition startsWith :: "string \<Rightarrow> string \<Rightarrow> bool" where
  "startsWith s p = (take (length p) s = p)"

definition truncateText :: "string \<Rightarrow> nat \<Rightarrow> string" where
  "truncateText t maxLength = (if length t \<le> maxLength then t else take maxLength t @ ''...'')"

definition formatReasoningPart :: "string \<Rightarrow> string" where
  "formatReasoningPart t = (if t = [] then [] else ''[Thinking: '' @ truncateText t 200 @ '']'')"

text \<open>\<open>formatFilePart\<close> on the branch that \<open>handlePartUpdate\<close> reaches: an image with a location.\<close>

definition formatImagePart :: "string option \<Rightarrow> string \<Rightarrow> string" where
  "formatImagePart filename url =
     ''!['' @ (case filename of Some f \<Rightarrow> f | None \<Rightarrow> ''image'') @ '']('' @ url @ '')''"

text \<open>
  \<open>handlePartUpdate\<close> on the store \<open>messagePartsById\<close>. A part with no message id, or an
  empty one, changes nothing. For a text part, \<open>state.textByPartId.get(part.id) || ''\<close> is
  the recorded text or the empty string, \<open>typeof delta === 'string'\<close> is \<open>delta\<close> being
  \<open>Some\<close>, and \<open>part.text || currentText\<close> is the text of the part unless it is empty.
\<close>

definition handlePartUpdate ::
  "Part \<Rightarrow> string option \<Rightarrow> (string \<rightharpoonup> MessagePartsState) \<Rightarrow> (string \<rightharpoonup> MessagePartsState)" where
  "handlePartUpdate part delta messagePartsById =
     (case messageID part of
        None \<Rightarrow> messagePartsById
      | Some mid \<Rightarrow>
          if mid = [] then messagePartsById
          else
            (case getMessageState mid messagePartsById of (state, store) \<Rightarrow>
               (case part of
                  TextPart pid m t \<Rightarrow>
                    let currentText = (case textByPartId state pid of
                                         Some s \<Rightarrow> s
                                       | None \<Rightarrow> []);
                        nextText = (case delta of
                                      Some d \<Rightarrow> currentText @ d
                                    | None \<Rightarrow> (if t \<noteq> [] then t else currentText));
                        state1 = state\<lparr>textByPartId := (textByPartId state)(pid \<mapsto> nextText)\<rparr>
                    in store(mid \<mapsto> setPartContent state1 pid (Some nextText))
                | FilePart pid m mime url filename \<Rightarrow>
                    if (case mime of Some t \<Rightarrow> startsWith t ''image/'' | None \<Rightarrow> False) \<and> url \<noteq> []
                    then store(mid \<mapsto> setPartContent state pid (Some (formatImagePart filename url)))
                    else store
                | PatchPart pid m \<Rightarrow> store
                | ReasoningPart pid m t \<Rightarrow>
                    store(mid \<mapsto> setPartContent state pid (Some (formatReasoningPart t)))
                | ToolPart pid m status formatted \<Rightarrow> store
                | OtherPart pid m \<Rightarrow> store)))"

text \<open>\<open>Array.prototype.join\<close>.\<close>

fun join :: "string \<Rightarrow> string list \<Rightarrow> string" where
  "join sep [] = []"
| "join sep [x] = x"
| "join sep (x # y # ys) = x @ sep @ join sep (y # ys)"

text \<open>
  The filter of \<open>buildMessageContent\<close>: \<open>Boolean(part && part.trim().length)\<close> keeps a part
  that is recorded, not empty, and not white space only.
\<close>

definition keptPart :: "string option \<Rightarrow> bool" where
  "keptPart part = (case part of None \<Rightarrow> False | Some p \<Rightarrow> p \<noteq> [] \<and> length (trim p) \<noteq> 0)"

definition buildMessageContent :: "(string \<rightharpoonup> MessagePartsState) \<Rightarrow> string \<Rightarrow> string" where
  "buildMessageContent messagePartsById messageId =
     (case messagePartsById messageId of
        None \<Rightarrow> []
      | Some state \<Rightarrow>
          trim (join [CHR 0x0A, CHR 0x0A]
                  (map the (filter keptPart (map (parts state) (order state))))))"

text \<open>The accumulated text of a text part, as \<open>textByPartId\<close> of its message holds it.\<close>

definition accumulatedText :: "(string \<rightharpoonup> MessagePartsState) \<Rightarrow> string \<Rightarrow> string \<Rightarrow> string" where
  "accumulatedText messagePartsById mid pid =
     (case messagePartsById mid of
        None \<Rightarrow> []
      | Some state \<Rightarrow> (case textByPartId state pid of None \<Rightarrow> [] | Some s \<Rightarrow> s))"

text \<open>
  A message state with no part that assembly keeps: the condition of the specification,
  "no non-empty parts", taken at its widest (a part of white space only counts as empty).
\<close>

definition noKeptParts :: "(string \<rightharpoonup> MessagePartsState) \<Rightarrow> string \<Rightarrow> bool" where
  "noKeptParts store messageId =
     (case store messageId of
        None \<Rightarrow> True
      | Some state \<Rightarrow> list_all (\<lambda>pid. \<not> keptPart (parts state pid)) (order state))"

text \<open>
  Stores and events for the examples: an event for the text part \<open>p1\<close> of the message
  \<open>m1\<close>; the store in which that part alone is recorded, with one text; and a store in
  which \<open>m1\<close> has a reasoning part without content and a text part of two spaces.
\<close>

definition textEvent :: "string \<Rightarrow> string option \<Rightarrow> (string \<rightharpoonup> MessagePartsState) \<Rightarrow> (string \<rightharpoonup> MessagePartsState)" where
  "textEvent fullText delta store = handlePartUpdate (TextPart ''p1'' (Some ''m1'') fullText) delta store"

definition oneText :: "string \<Rightarrow> (string \<rightharpoonup> MessagePartsState)" where
  "oneText t =
     [''m1'' \<mapsto> \<lparr>order = [''p1''], parts = [''p1'' \<mapsto> t], textByPartId = [''p1'' \<mapsto> t]\<rparr>]"

definition blankStore :: "string \<rightharpoonup> MessagePartsState" where
  "blankStore =
     [''m1'' \<mapsto> \<lparr>order = [''p0'', ''p1''], parts = [''p1'' \<mapsto> ''  ''],
                 textByPartId = [''p1'' \<mapsto> ''  '']\<rparr>]"

section \<open>The event hook (\<open>message.part.updated\<close>, \<open>message.updated\<close>)\<close>

text \<open>What the plugin asks of the remote side: \<open>vicoaClient.sendMessage(text)\<close>.\<close>

datatype RemoteCall = SendMessage string

text \<open>
  The message of a \<open>message.updated\<close> event: \<open>id\<close>, \<open>role\<close>, \<open>agent\<close> and
  \<open>time?.completed\<close>, a time stamp that is truthy when it is present and not zero.
\<close>

record Message =
  msgId :: string
  role :: string
  agent :: "string option"
  timeCompleted :: "nat option"

record PluginState =
  messagePartsById :: "string \<rightharpoonup> MessagePartsState"
  sentAssistantMessageIds :: "string set"
  sentAssistantMessageQueue :: "string list"
  tuiCurrentAgent :: "string option"
  preferredAgent :: "string option"

definition initialState :: PluginState where
  "initialState =
     \<lparr>messagePartsById = Map.empty, sentAssistantMessageIds = {},
      sentAssistantMessageQueue = [], tuiCurrentAgent = None, preferredAgent = None\<rparr>"

text \<open>
  \<open>JSON.stringify\<close> of a string: the quotation mark, the reverse solidus and the control
  characters are escaped, every other unit stands for itself.
\<close>

definition hexDigit :: "nat \<Rightarrow> char" where
  "hexDigit n = ''0123456789abcdef'' ! (n mod 16)"

definition quoteUnit :: "char \<Rightarrow> string" where
  "quoteUnit c =
     (if c = CHR 0x08 then [CHR 0x5C, CHR ''b'']
      else if c = CHR 0x09 then [CHR 0x5C, CHR ''t'']
      else if c = CHR 0x0A then [CHR 0x5C, CHR ''n'']
      else if c = CHR 0x0C then [CHR 0x5C, CHR ''f'']
      else if c = CHR 0x0D then [CHR 0x5C, CHR ''r'']
      else if c = CHR 0x22 then [CHR 0x5C, CHR 0x22]
      else if c = CHR 0x5C then [CHR 0x5C, CHR 0x5C]
      else if (of_char c :: nat) < 32
        then [CHR 0x5C, CHR ''u'', CHR ''0'', CHR ''0'',
              hexDigit ((of_char c :: nat) div 16), hexDigit (of_char c :: nat)]
      else [c])"

definition jsonQuote :: "string \<Rightarrow> string" where
  "jsonQuote s = [CHR 0x22] @ concat (map quoteUnit s) @ [CHR 0x22]"

text \<open>
  The text \<open>sendAgentSwitchToUi\<close> sends:
  \<open>JSON.stringify({ type: 'control', setting: 'agent_type', value: agentName.toLowerCase() })\<close>
  after the sentence that names the agent.
\<close>

definition agentSwitchText :: "string \<Rightarrow> string" where
  "agentSwitchText agentName =
     ''Agent changed to '' @ agentName @ ''. '' @
     [CHR ''{'', CHR 0x22] @ ''type'' @ [CHR 0x22, CHR '':'', CHR 0x22] @ ''control'' @
     [CHR 0x22, CHR '','', CHR 0x22] @ ''setting'' @ [CHR 0x22, CHR '':'', CHR 0x22] @
     ''agent_type'' @ [CHR 0x22, CHR '','', CHR 0x22] @ ''value'' @ [CHR 0x22, CHR '':''] @
     jsonQuote (toLowerCase agentName) @ [CHR ''}'']"

text \<open>
  The case \<open>message.part.updated\<close>: a tool part that is completed or in error is sent as a
  message of its own when its line is not empty; any other part goes to \<open>handlePartUpdate\<close>.
\<close>

definition onPartUpdated :: "Part \<Rightarrow> string option \<Rightarrow> PluginState \<Rightarrow> PluginState \<times> RemoteCall list" where
  "onPartUpdated part delta st =
     (case part of
        ToolPart pid m status formatted \<Rightarrow>
          (st, if (status = ''completed'' \<or> status = ''error'') \<and> formatted \<noteq> []
               then [SendMessage formatted] else [])
      | _ \<Rightarrow> (st\<lparr>messagePartsById := handlePartUpdate part delta (messagePartsById st)\<rparr>, []))"

text \<open>
  The case \<open>message.updated\<close>. A user message that names an agent records it, and reports a
  change of agent to the remote side. Then, for an assistant message that is completed, the
  content is assembled, the state of the message is deleted, and the content is sent and the
  id tracked when the content is not empty and the id was not sent before.
  \<open>sendMessage\<close> catches its own failures, so the tracking always follows the send.
\<close>

definition onMessageUpdated :: "Message \<Rightarrow> PluginState \<Rightarrow> PluginState \<times> RemoteCall list" where
  "onMessageUpdated message st =
     (let (st1, sent1) =
            (case agent message of
               Some reportedAgent \<Rightarrow>
                 if role message = ''user'' \<and> reportedAgent \<noteq> []
                 then (st\<lparr>tuiCurrentAgent := Some reportedAgent,
                           preferredAgent := Some reportedAgent\<rparr>,
                       if tuiCurrentAgent st \<noteq> Some reportedAgent
                       then [SendMessage (agentSwitchText reportedAgent)] else [])
                 else (st, [])
             | None \<Rightarrow> (st, []))
      in if role message \<noteq> ''assistant'' \<or> timeCompleted message = None
            \<or> timeCompleted message = Some 0
         then (st1, sent1)
         else
           let trimmedText = buildMessageContent (messagePartsById st1) (msgId message);
               st2 = st1\<lparr>messagePartsById := (messagePartsById st1)(msgId message := None)\<rparr>
           in if length trimmedText > 0 \<and> msgId message \<notin> sentAssistantMessageIds st2
              then (case trackSentMessage (sentAssistantMessageIds st2, sentAssistantMessageQueue st2)
                                          (msgId message) of
                      (ids, queue) \<Rightarrow>
                        (st2\<lparr>sentAssistantMessageIds := ids, sentAssistantMessageQueue := queue\<rparr>,
                         sent1 @ [SendMessage trimmedText]))
              else (st2, sent1))"

text \<open>The two events the hook is modelled for, and a run of them from a state.\<close>

datatype Event = PartUpdated Part "string option" | MessageUpdated Message

fun onEvent :: "Event \<Rightarrow> PluginState \<Rightarrow> PluginState \<times> RemoteCall list" where
  "onEvent (PartUpdated part delta) st = onPartUpdated part delta st"
| "onEvent (MessageUpdated message) st = onMessageUpdated message st"

fun runEvents :: "Event list \<Rightarrow> PluginState \<Rightarrow> PluginState \<times> RemoteCall list" where
  "runEvents [] st = (st, [])"
| "runEvents (e # es) st =
     (case onEvent e st of (st1, sent1) \<Rightarrow>
        (case runEvents es st1 of (st2, sent2) \<Rightarrow> (st2, sent1 @ sent2)))"

text \<open>For the examples: the completed assistant message \<open>m1\<close>, and a state around a store.\<close>

definition completedM1 :: Message where
  "completedM1 = \<lparr>msgId = ''m1'', role = ''assistant'', agent = None, timeCompleted = Some 1\<rparr>"

definition stateWith :: "(string \<rightharpoonup> MessagePartsState) \<Rightarrow> PluginState" where
  "stateWith store = initialState\<lparr>messagePartsById := store\<rparr>"

text \<open>
  What the hook keeps true of its state: no message state is recorded under the empty id, the
  queue of forwarded ids does not hold the empty id, and the registry is in order.
\<close>

definition hookInvariant :: "PluginState \<Rightarrow> bool" where
  "hookInvariant st =
     (messagePartsById st [] = None \<and>
      [] \<notin> set (sentAssistantMessageQueue st) \<and>
      registryInvariant (sentAssistantMessageIds st, sentAssistantMessageQueue st))"

text \<open>
  The events of one assistant message from its first part to its completion: a text part with
  the text \<open>x\<close>, then the message completed. And the registry that a run of events from the
  initial state leaves.
\<close>

definition completeEvents :: "string \<Rightarrow> Event list" where
  "completeEvents mid =
     [PartUpdated (TextPart ''p1'' (Some mid) ''x'') None,
      MessageUpdated \<lparr>msgId = mid, role = ''assistant'', agent = None, timeCompleted = Some 1\<rparr>]"

definition registryAfter :: "Event list \<Rightarrow> string set \<times> string list" where
  "registryAfter events =
     (sentAssistantMessageIds (fst (runEvents events initialState)),
      sentAssistantMessageQueue (fst (runEvents events initialState)))"

section \<open>Permission replies (\<open>parsePermissionReply\<close>)\<close>

text \<open>The response values \<open>'once'\<close>, \<open>'always'\<close> and \<open>'reject'\<close>.\<close>

datatype Response = Once | Always | Reject

record PermissionOption =
  label :: string
  response :: Response

definition DEFAULT_PERMISSION_OPTIONS :: "PermissionOption list" where
  "DEFAULT_PERMISSION_OPTIONS =
     [\<lparr>label = ''Allow'', response = Once\<rparr>,
      \<lparr>label = ''Allow always'', response = Always\<rparr>,
      \<lparr>label = ''Reject'', response = Reject\<rparr>]"

text \<open>
  \<open>Number.parseInt(s, 10)\<close>: leading white space is skipped, one sign is read, and the longest
  run of decimal digits that follows is the number; whatever comes after the run is ignored.
  \<open>None\<close> is \<open>NaN\<close>, the answer when there is no digit to read. The number is kept exact: the
  double that JavaScript computes is compared only with 1 and with the length of an array,
  and its rounding does not change these comparisons.
\<close>

definition isDigit :: "char \<Rightarrow> bool" where
  "isDigit c = (c \<in> set ''0123456789'')"

definition digitValue :: "char \<Rightarrow> nat" where
  "digitValue c = of_char c - 48"

definition decimalValue :: "string \<Rightarrow> nat" where
  "decimalValue ds = foldl (\<lambda>n c. 10 * n + digitValue c) 0 ds"

definition parseInt10 :: "string \<Rightarrow> int option" where
  "parseInt10 s =
     (let skipped = dropWhile isWhiteSpace s;
          (sign, unsigned) =
            (case skipped of
               [] \<Rightarrow> (1, [])
             | c # cs \<Rightarrow>
                 if c = CHR ''-'' then (- 1, cs)
                 else if c = CHR ''+'' then (1, cs)
                 else (1, skipped));
          digits = takeWhile isDigit unsigned
      in if digits = [] then None else Some (sign * int (decimalValue digits)))"

text \<open>The loop over the options: the first whose label, in lower case, is the reply.\<close>

fun labelMatch :: "string \<Rightarrow> PermissionOption list \<Rightarrow> Response option" where
  "labelMatch trimmed [] = None"
| "labelMatch trimmed (opt # opts) =
     (if toLowerCase (label opt) = trimmed then Some (response opt)
      else labelMatch trimmed opts)"

text \<open>
  \<open>!Number.isNaN(num) && num >= 1 && num <= options.length\<close>, and then
  \<open>options[num - 1].response\<close>.
\<close>

definition numericMatch :: "string \<Rightarrow> PermissionOption list \<Rightarrow> Response option" where
  "numericMatch trimmed opts =
     (case parseInt10 trimmed of
        None \<Rightarrow> None
      | Some num \<Rightarrow>
          if num \<ge> 1 \<and> num \<le> int (length opts) then Some (response (opts ! nat (num - 1)))
          else None)"

text \<open>
  A test of the form \<open>/^(w1|w2|...)$/i.test(s)\<close>, the words in lower-case letters and digits:
  the whole of \<open>s\<close> is one of the words, whatever the case of its letters.
\<close>

definition testWords :: "string list \<Rightarrow> string \<Rightarrow> bool" where
  "testWords ws s = (toLowerCase s \<in> set ws)"

definition keywordMatch :: "string \<Rightarrow> Response option" where
  "keywordMatch trimmed =
     (if testWords [''allow'', ''yes'', ''y'', ''ok'', ''approve'', ''1''] trimmed then Some Once
      else if testWords [''always'', ''forever'', ''permanent'', ''2''] trimmed then Some Always
      else if testWords [''reject'', ''no'', ''n'', ''deny'', ''cancel'', ''3''] trimmed then Some Reject
      else None)"

definition parsePermissionReply :: "string \<Rightarrow> PermissionOption list \<Rightarrow> Response option" where
  "parsePermissionReply userReply opts =
     (let trimmed = toLowerCase (trim userReply)
      in case labelMatch trimmed opts of
           Some r \<Rightarrow> Some r
         | None \<Rightarrow>
             (case numericMatch trimmed opts of
                Some r \<Rightarrow> Some r
              | None \<Rightarrow> keywordMatch trimmed))"

text \<open>
  A reply that is an integer as the specification words it, "the reply parses as an integer":
  an optional sign and decimal digits, and nothing else.
\<close>

definition isIntegerNumeral :: "string \<Rightarrow> bool" where
  "isIntegerNumeral s =
     (case s of
        [] \<Rightarrow> False
      | c # cs \<Rightarrow>
          if c = CHR ''-'' \<or> c = CHR ''+'' then cs \<noteq> [] \<and> list_all isDigit cs
          else list_all isDigit (c # cs))"

section \<open>Control commands (\<open>extractControlPayload\<close>)\<close>


text \<open>
  A value that \<open>JSON.parse\<close> returns. A number is kept as the exact value of its literal,
  \<open>JNum m e\<close> for \<open>m\<close> times 10 to the power \<open>e\<close>. An object keeps its members in the order of
  the text; of two members with one key the later is the property.
\<close>

datatype json =
    JNull
  | JBool bool
  | JNum int int
  | JStr "nat list"
  | JArr "json list"
  | JObj "(nat list \<times> json) list"









section \<open>A model of \<open>JSON.parse\<close>\<close>

text \<open>
  \<open>JSON.parse\<close> belongs to the platform. This model follows the JSON grammar: white space,
  the six structural characters, strings with their escapes, numbers, and the three literal
  names. It answers \<open>None\<close> where \<open>JSON.parse\<close> throws a \<open>SyntaxError\<close>. A character of a
  string stands for its own unit, and a \<open>\u\<close> escape for the unit its four digits denote.
\<close>

datatype token =
    TLBrace | TRBrace | TLBracket | TRBracket | TColon | TComma
  | TString "nat list" | TNumber int int | TTrue | TFalse | TNull

definition isJsonSpace :: "char \<Rightarrow> bool" where
  "isJsonSpace c = (c \<in> set [CHR 0x20, CHR 0x09, CHR 0x0A, CHR 0x0D])"

definition isWordChar :: "char \<Rightarrow> bool" where
  "isWordChar c =
     (c \<in> set ''0123456789+-.abcdefghijklmnopqrstuvwxyzABCDEFGHIJKLMNOPQRSTUVWXYZ'')"

definition isHexDigit :: "char \<Rightarrow> bool" where
  "isHexDigit c = (c \<in> set ''0123456789abcdefABCDEF'')"

definition hexDigitValue :: "char \<Rightarrow> nat" where
  "hexDigitValue c =
     (if isDigit c then of_char c - 48
      else if c \<in> set ''abcdef'' then of_char c - 87
      else of_char c - 55)"

definition hexValue :: "string \<Rightarrow> nat" where
  "hexValue hs = foldl (\<lambda>n c. 16 * n + hexDigitValue c) 0 hs"

text \<open>
  A number of the grammar: an optional minus sign; \<open>0\<close>, or digits that do not begin with
  \<open>0\<close>; an optional fraction of a point and digits; an optional exponent of \<open>e\<close> or \<open>E\<close>, an
  optional sign and digits. Its value is the digits of the integer part and the fraction,
  read as one integer, times the power of ten that the exponent less the length of the
  fraction gives.
\<close>

definition numberToken :: "string \<Rightarrow> token option" where
  "numberToken w =
     (let negative = (w \<noteq> [] \<and> hd w = CHR ''-'');
          r1 = (if negative then tl w else w);
          whole = takeWhile isDigit r1;
          r2 = dropWhile isDigit r1;
          hasFraction = (r2 \<noteq> [] \<and> hd r2 = CHR ''.'');
          fraction = (if hasFraction then takeWhile isDigit (tl r2) else []);
          r3 = (if hasFraction then dropWhile isDigit (tl r2) else r2);
          hasExponent = (r3 \<noteq> [] \<and> (hd r3 = CHR ''e'' \<or> hd r3 = CHR ''E''));
          r4 = (if hasExponent then tl r3 else r3);
          exponentNegative = (hasExponent \<and> r4 \<noteq> [] \<and> hd r4 = CHR ''-'');
          r5 = (if hasExponent \<and> r4 \<noteq> [] \<and> (hd r4 = CHR ''-'' \<or> hd r4 = CHR ''+'')
                then tl r4 else r4);
          wellFormed =
            (whole \<noteq> [] \<and> (whole = ''0'' \<or> hd whole \<noteq> CHR ''0'')
             \<and> (hasFraction \<longrightarrow> fraction \<noteq> [])
             \<and> (if hasExponent then r5 \<noteq> [] \<and> list_all isDigit r5 else r5 = []));
          mantissa = int (decimalValue (whole @ fraction));
          exponent = (if hasExponent
                      then (if exponentNegative then - int (decimalValue r5)
                            else int (decimalValue r5))
                      else 0) - int (length fraction)
      in if wellFormed
         then Some (TNumber (if negative then - mantissa else mantissa) exponent)
         else None)"

definition wordToken :: "string \<Rightarrow> token option" where
  "wordToken w =
     (if w = ''true'' then Some TTrue
      else if w = ''false'' then Some TFalse
      else if w = ''null'' then Some TNull
      else numberToken w)"

text \<open>
  The lexer reads one character at a time. Its state: between tokens; in a word, a run of
  letters, digits, signs and points that must be a literal name or a number; in a string;
  after a reverse solidus in a string; in the four hexadecimal digits of a \<open>\u\<close> escape.
  What is read of a word, a string or an escape is held last first, a string as its units.
\<close>

datatype lexState =
    LIdle
  | LWord string
  | LString "nat list"
  | LEscape "nat list"
  | LUnicode "nat list" string

definition consToken :: "token \<Rightarrow> token list option \<Rightarrow> token list option" where
  "consToken t rest = (case rest of None \<Rightarrow> None | Some ts \<Rightarrow> Some (t # ts))"

definition escapeUnit :: "char \<Rightarrow> nat option" where
  "escapeUnit c =
     (if c = CHR 0x22 \<or> c = CHR 0x5C \<or> c = CHR ''/'' then Some (of_char c)
      else if c = CHR ''b'' then Some 8
      else if c = CHR ''f'' then Some 12
      else if c = CHR ''n'' then Some 10
      else if c = CHR ''r'' then Some 13
      else if c = CHR ''t'' then Some 9
      else None)"

function (sequential) lex :: "lexState \<Rightarrow> string \<Rightarrow> token list option" where
  "lex LIdle [] = Some []"
| "lex (LWord w) [] = (case wordToken (rev w) of None \<Rightarrow> None | Some t \<Rightarrow> Some [t])"
| "lex (LString acc) [] = None"
| "lex (LEscape acc) [] = None"
| "lex (LUnicode acc hs) [] = None"
| "lex LIdle (c # cs) =
     (if isJsonSpace c then lex LIdle cs
      else if c = CHR ''{'' then consToken TLBrace (lex LIdle cs)
      else if c = CHR ''}'' then consToken TRBrace (lex LIdle cs)
      else if c = CHR ''['' then consToken TLBracket (lex LIdle cs)
      else if c = CHR '']'' then consToken TRBracket (lex LIdle cs)
      else if c = CHR '':'' then consToken TColon (lex LIdle cs)
      else if c = CHR '','' then consToken TComma (lex LIdle cs)
      else if c = CHR 0x22 then lex (LString []) cs
      else if isWordChar c then lex (LWord [c]) cs
      else None)"
| "lex (LWord w) (c # cs) =
     (if isWordChar c then lex (LWord (c # w)) cs
      else (case wordToken (rev w) of
              None \<Rightarrow> None
            | Some t \<Rightarrow> consToken t (lex LIdle (c # cs))))"
| "lex (LString acc) (c # cs) =
     (if c = CHR 0x22 then consToken (TString (rev acc)) (lex LIdle cs)
      else if c = CHR 0x5C then lex (LEscape acc) cs
      else if (of_char c :: nat) < 32 then None
      else lex (LString (of_char c # acc)) cs)"
| "lex (LEscape acc) (c # cs) =
     (if c = CHR ''u'' then lex (LUnicode acc []) cs
      else (case escapeUnit c of
              None \<Rightarrow> None
            | Some u \<Rightarrow> lex (LString (u # acc)) cs))"
| "lex (LUnicode acc hs) (c # cs) =
     (if \<not> isHexDigit c then None
      else if length hs < 3 then lex (LUnicode acc (c # hs)) cs
      else lex (LString (hexValue (rev (c # hs)) # acc)) cs)"
  by pat_completeness auto
termination
  by (relation "measure (\<lambda>(st, s). 2 * length s + (case st of LWord w \<Rightarrow> 1 | _ \<Rightarrow> 0))") auto

text \<open>
  The parser reads one token at a time and keeps the containers that are open, the innermost
  first: an array with its elements so far, last first; an object with its members so far,
  last first, and the key that waits for its value.
\<close>

datatype frame =
    FArr "json list"
  | FObj "(nat list \<times> json) list" "nat list option"

datatype expect =
    EValue | EValueOrEnd | EKeyOrEnd | EKey | EColon | ECommaOrEnd | EDone

text \<open>A value that is complete goes to the innermost open container, or is the result.\<close>

fun deliver :: "json \<Rightarrow> frame list \<Rightarrow> (frame list \<times> expect \<times> json option) option" where
  "deliver v [] = Some ([], EDone, Some v)"
| "deliver v (FArr elements # stack) = Some (FArr (v # elements) # stack, ECommaOrEnd, None)"
| "deliver v (FObj members (Some key) # stack) =
     Some (FObj ((key, v) # members) None # stack, ECommaOrEnd, None)"
| "deliver v (FObj members None # stack) = None"

fun scalarOf :: "token \<Rightarrow> json option" where
  "scalarOf (TString s) = Some (JStr s)"
| "scalarOf (TNumber m e) = Some (JNum m e)"
| "scalarOf TTrue = Some (JBool True)"
| "scalarOf TFalse = Some (JBool False)"
| "scalarOf TNull = Some JNull"
| "scalarOf other = None"

definition parseStep ::
  "token \<Rightarrow> frame list \<Rightarrow> expect \<Rightarrow> (frame list \<times> expect \<times> json option) option" where
  "parseStep t stack e =
     (if e = EValue \<or> e = EValueOrEnd then
        (case scalarOf t of
           Some v \<Rightarrow> deliver v stack
         | None \<Rightarrow>
             if t = TLBracket then Some (FArr [] # stack, EValueOrEnd, None)
             else if t = TLBrace then Some (FObj [] None # stack, EKeyOrEnd, None)
             else if t = TRBracket \<and> e = EValueOrEnd then
               (case stack of FArr elements # rest \<Rightarrow> deliver (JArr (rev elements)) rest
                | _ \<Rightarrow> None)
             else None)
      else if e = EKeyOrEnd \<or> e = EKey then
        (case (t, stack) of
           (TString key, FObj members None # rest) \<Rightarrow> Some (FObj members (Some key) # rest, EColon, None)
         | (TRBrace, FObj members None # rest) \<Rightarrow>
             if e = EKeyOrEnd then deliver (JObj (rev members)) rest else None
         | _ \<Rightarrow> None)
      else if e = EColon then
        (if t = TColon then Some (stack, EValue, None) else None)
      else if e = ECommaOrEnd then
        (case (t, stack) of
           (TComma, FArr elements # rest) \<Rightarrow> Some (stack, EValue, None)
         | (TComma, FObj members None # rest) \<Rightarrow> Some (stack, EKey, None)
         | (TRBracket, FArr elements # rest) \<Rightarrow> deliver (JArr (rev elements)) rest
         | (TRBrace, FObj members None # rest) \<Rightarrow> deliver (JObj (rev members)) rest
         | _ \<Rightarrow> None)
      else None)"

fun parseTokens :: "frame list \<Rightarrow> expect \<Rightarrow> json option \<Rightarrow> token list \<Rightarrow> json option" where
  "parseTokens stack e result [] = (if e = EDone then result else None)"
| "parseTokens stack e result (t # ts) =
     (case parseStep t stack e of
        None \<Rightarrow> None
      | Some (stack1, e1, result1) \<Rightarrow> parseTokens stack1 e1 result1 ts)"

definition JSON_parse :: "string \<Rightarrow> json option" where
  "JSON_parse s =
     (case lex LIdle s of
        None \<Rightarrow> None
      | Some tokens \<Rightarrow> parseTokens [] EValue None tokens)"





section \<open>Facts about agent cycling\<close>

lemma findIndexFrom_first:
  "j < length xs \<Longrightarrow> P (xs ! j) \<Longrightarrow> (\<forall>k<j. \<not> P (xs ! k)) \<Longrightarrow>
     findIndexFrom P i xs = i + int j"
proof (induction xs arbitrary: i j)
  case Nil
  then show ?case by simp
next
  case (Cons x xs)
  show ?case
  proof (cases j)
    case 0
    with Cons.prems show ?thesis by simp
  next
    case (Suc j')
    from Cons.prems Suc have nx: "\<not> P x" by auto
    from Cons.prems Suc have "j' < length xs" "P (xs ! j')" "\<forall>k<j'. \<not> P (xs ! k)"
      by auto
    then have "findIndexFrom P (i + 1) xs = i + 1 + int j'"
      by (rule Cons.IH)
    with nx Suc show ?thesis by simp
  qed
qed

lemma findIndexFrom_range:
  "0 \<le> i \<Longrightarrow> findIndexFrom P i xs = - 1 \<or>
     (i \<le> findIndexFrom P i xs \<and> findIndexFrom P i xs < i + int (length xs))"
proof (induction xs arbitrary: i)
  case Nil
  then show ?case by simp
next
  case (Cons x xs)
  from Cons.prems have "0 \<le> i + 1" by simp
  from Cons.IH [OF this] Cons.prems show ?case by auto
qed

lemma findIndex_first:
  "j < length xs \<Longrightarrow> P (xs ! j) \<Longrightarrow> (\<forall>k<j. \<not> P (xs ! k)) \<Longrightarrow> findIndex P xs = int j"
  using findIndexFrom_first [of j xs P 0] by (simp add: findIndex_def)

lemma findIndex_range:
  "findIndex P xs = - 1 \<or> (0 \<le> findIndex P xs \<and> findIndex P xs < int (length xs))"
  using findIndexFrom_range [of 0 P xs] by (simp add: findIndex_def)

lemma js_rem_nonneg:
  "0 \<le> a \<Longrightarrow> 0 < b \<Longrightarrow> js_rem a b = a mod b"
  by (cases "a = 0") (simp_all add: js_rem_def)

lemma cycleLoop_all_ok:
  "(\<forall>k. execOk k) \<Longrightarrow> cycleLoop execOk steps i issued = (True, issued + nat (steps - i))"
proof (induction execOk steps i issued rule: cycleLoop.induct)
  case (1 execOk steps i issued)
  show ?case
  proof (cases "i < steps")
    case True
    with "1.prems" have ok: "execOk issued" by simp
    from "1.IH" [OF True ok "1.prems"] True ok show ?thesis
      by (subst cycleLoop.simps) (simp add: nat_diff_distrib')
  next
    case False
    then show ?thesis by (subst cycleLoop.simps) simp
  qed
qed

lemma cycleLoop_issued_le:
  "snd (cycleLoop execOk steps i issued) \<le> issued + nat (steps - i)"
proof (induction execOk steps i issued rule: cycleLoop.induct)
  case (1 execOk steps i issued)
  show ?case
  proof (cases "i < steps")
    case True
    note lt = this
    show ?thesis
    proof (cases "execOk issued")
      case True
      from "1.IH" [OF lt True] lt True show ?thesis
        by (subst cycleLoop.simps) (simp add: nat_diff_distrib')
    next
      case False
      with lt show ?thesis by (subst cycleLoop.simps) simp
    qed
  next
    case False
    then show ?thesis by (subst cycleLoop.simps) simp
  qed
qed

lemma findIndex_indexOfName:
  assumes "indexOfName ps n i"
  shows "findIndex (\<lambda>a. name a = n) ps = int i"
proof (rule findIndex_first)
  from assms show "i < length ps" by (simp add: indexOfName_def)
  from assms show "name (ps ! i) = n" by (simp add: indexOfName_def)
  show "\<forall>k<i. name (ps ! k) \<noteq> n"
  proof (intro allI impI)
    fix k assume k: "k < i"
    with assms have "k < length (take i ps)" by (simp add: indexOfName_def)
    then have "take i ps ! k \<in> set (take i ps)" by (rule nth_mem)
    with k have "ps ! k \<in> set (take i ps)" by simp
    then have "name (ps ! k) \<in> name ` set (take i ps)" by (rule imageI)
    with assms show "name (ps ! k) \<noteq> n" by (auto simp: indexOfName_def)
  qed
qed

lemma cycleSteps_formula:
  assumes t: "indexOfName (filter isPrimary allAgents) targetAgent j"
      and cur: "case currentAgent of None \<Rightarrow> i = 0
                | Some c \<Rightarrow> indexOfName (filter isPrimary allAgents) c i"
  shows "cycleSteps allAgents targetAgent currentAgent =
           Some ((int j - int i + int (length (filter isPrimary allAgents)))
                   mod int (length (filter isPrimary allAgents)))"
proof -
  let ?ps = "filter isPrimary allAgents"
  have ti: "findIndex (\<lambda>a. name a = targetAgent) ?ps = int j"
    using t by (rule findIndex_indexOfName)
  from t have j: "j < length ?ps" by (simp add: indexOfName_def)
  then obtain a rest where ps: "?ps = a # rest" by (cases ?ps) auto
  have ci: "findIndex (\<lambda>a. Some (name a) = currentNameOf ?ps currentAgent) ?ps = int i"
   and i: "i < length ?ps"
  proof -
    show "findIndex (\<lambda>a. Some (name a) = currentNameOf ?ps currentAgent) ?ps = int i"
    proof (cases currentAgent)
      case None
      with cur ps show ?thesis
        by (simp add: currentNameOf_def findIndex_def)
    next
      case (Some c)
      with cur have "indexOfName ?ps c i" by simp
      then have "findIndex (\<lambda>a. name a = c) ?ps = int i" by (rule findIndex_indexOfName)
      with Some show ?thesis by (simp add: currentNameOf_def)
    qed
    show "i < length ?ps"
      using cur j by (cases currentAgent) (auto simp: indexOfName_def)
  qed
  have "js_rem (int j - int i + int (length ?ps)) (int (length ?ps))
          = (int j - int i + int (length ?ps)) mod int (length ?ps)"
    using i j by (intro js_rem_nonneg) auto
  with ti ci show ?thesis by (simp add: cycleSteps_def Let_def)
qed

lemma cycleTuiToAgent_all_ok:
  "cycleSteps allAgents targetAgent currentAgent = Some steps \<Longrightarrow>
     cycleTuiToAgent (Some allAgents) (\<lambda>k. True) targetAgent currentAgent = (True, nat steps)"
  by (simp add: cycleTuiToAgent_def cycleLoop_all_ok)

lemma cycleSteps_range:
  assumes "cycleSteps allAgents targetAgent currentAgent = Some steps"
  shows "0 \<le> steps \<and> steps < int (length (filter isPrimary allAgents))"
proof -
  let ?ps = "filter isPrimary allAgents"
  let ?t = "findIndex (\<lambda>a. name a = targetAgent) ?ps"
  let ?c = "findIndex (\<lambda>a. Some (name a) = currentNameOf ?ps currentAgent) ?ps"
  from assms have t: "?t \<noteq> - 1" and c: "?c \<noteq> - 1"
    and s: "steps = js_rem (?t - ?c + int (length ?ps)) (int (length ?ps))"
    by (auto simp: cycleSteps_def Let_def split: if_splits)
  from t findIndex_range [of "\<lambda>a. name a = targetAgent" ?ps]
  have tr: "0 \<le> ?t" "?t < int (length ?ps)" by auto
  from c findIndex_range [of "\<lambda>a. Some (name a) = currentNameOf ?ps currentAgent" ?ps]
  have cr: "0 \<le> ?c" "?c < int (length ?ps)" by auto
  from tr have pos: "0 < int (length ?ps)" by linarith
  define m where "m = ?t - ?c + int (length ?ps)"
  from tr cr have "0 \<le> m" by (simp add: m_def)
  from this pos have "js_rem m (int (length ?ps)) = m mod int (length ?ps)"
    by (rule js_rem_nonneg)
  with s have "steps = m mod int (length ?ps)" by (simp add: m_def)
  with pos show ?thesis by simp
qed

lemma cycleSteps_same:
  assumes "cycleSteps allAgents targetAgent currentAgent = Some steps"
      and "currentNameOf (filter isPrimary allAgents) currentAgent = Some targetAgent"
  shows "steps = 0"
proof -
  let ?ps = "filter isPrimary allAgents"
  let ?t = "findIndex (\<lambda>a. name a = targetAgent) ?ps"
  from assms(2) have same: "(\<lambda>a. Some (name a) = currentNameOf ?ps currentAgent) = (\<lambda>a. name a = targetAgent)"
    by auto
  from assms(1) have t: "?t \<noteq> - 1"
    and s: "steps = js_rem (?t - ?t + int (length ?ps)) (int (length ?ps))"
    by (auto simp: cycleSteps_def Let_def same split: if_splits)
  from t findIndex_range [of "\<lambda>a. name a = targetAgent" ?ps]
  have "0 < int (length ?ps)" by auto
  with s show ?thesis by (simp add: js_rem_def)
qed

lemma cycleTuiToAgent_issued_le:
  "cycleSteps allAgents targetAgent currentAgent = Some steps \<Longrightarrow>
     snd (cycleTuiToAgent (Some allAgents) execOk targetAgent currentAgent) \<le> nat steps"
  using cycleLoop_issued_le [of execOk steps 0 0] by (simp add: cycleTuiToAgent_def)

text \<open>
  Claim C1. Whenever the target agent is in the list of primary agents, and the current agent
  is in it or undefined, \<open>cycleTuiToAgent\<close> returns \<open>true\<close> after issuing
  \<open>(index(target) - index(current) + length) mod length\<close> cycle commands, the index of an
  undefined current agent being 0. For the agents A, B, C, D with current C and target A it
  issues 2 commands; for the agents A, B, C with an undefined current agent and target C it
  issues 2 commands.
\<close>

theorem cycleTuiToAgent_steps:
  "(\<forall>allAgents targetAgent currentAgent i j.
      indexOfName (filter isPrimary allAgents) targetAgent j \<longrightarrow>
      (case currentAgent of None \<Rightarrow> i = 0
       | Some c \<Rightarrow> indexOfName (filter isPrimary allAgents) c i) \<longrightarrow>
      cycleTuiToAgent (Some allAgents) (\<lambda>k. True) targetAgent currentAgent =
        (True, nat ((int j - int i + int (length (filter isPrimary allAgents)))
                      mod int (length (filter isPrimary allAgents)))))
   \<and> cycleTuiToAgent (Some [primaryAgent ''A'', primaryAgent ''B'', primaryAgent ''C'', primaryAgent ''D''])
        (\<lambda>k. True) ''A'' (Some ''C'') = (True, 2)
   \<and> cycleTuiToAgent (Some [primaryAgent ''A'', primaryAgent ''B'', primaryAgent ''C''])
        (\<lambda>k. True) ''C'' None = (True, 2)"
proof (intro conjI allI impI)
  fix allAgents targetAgent currentAgent i j
  assume "indexOfName (filter isPrimary allAgents) targetAgent j"
     and "case currentAgent of None \<Rightarrow> i = 0
          | Some c \<Rightarrow> indexOfName (filter isPrimary allAgents) c i"
  then have "cycleSteps allAgents targetAgent currentAgent =
           Some ((int j - int i + int (length (filter isPrimary allAgents)))
                   mod int (length (filter isPrimary allAgents)))"
    by (rule cycleSteps_formula)
  then show "cycleTuiToAgent (Some allAgents) (\<lambda>k. True) targetAgent currentAgent =
        (True, nat ((int j - int i + int (length (filter isPrimary allAgents)))
                      mod int (length (filter isPrimary allAgents))))"
    by (rule cycleTuiToAgent_all_ok)
next
  show "cycleTuiToAgent (Some [primaryAgent ''A'', primaryAgent ''B'', primaryAgent ''C'', primaryAgent ''D''])
        (\<lambda>k. True) ''A'' (Some ''C'') = (True, 2)"
    by (simp add: cycleTuiToAgent_def cycleSteps_def primaryAgent_def isPrimary_def findIndex_def
        currentNameOf_def js_rem_def Let_def cycleLoop.simps)
next
  show "cycleTuiToAgent (Some [primaryAgent ''A'', primaryAgent ''B'', primaryAgent ''C''])
        (\<lambda>k. True) ''C'' None = (True, 2)"
    by (simp add: cycleTuiToAgent_def cycleSteps_def primaryAgent_def isPrimary_def findIndex_def
        currentNameOf_def js_rem_def Let_def cycleLoop.simps)
qed

text \<open>
  The same at a list that holds a subagent and a hidden agent, which the filter removes: from
  \<open>review\<close>, the third of three primary agents, one command reaches \<open>build\<close>, the first.
\<close>

theorem cycleTuiToAgent_steps_witness:
  "indexOfName (filter isPrimary
       [primaryAgent ''build'', \<lparr>name = ''explore'', mode = Some ''subagent'', hidden = None\<rparr>,
        primaryAgent ''plan'', \<lparr>name = ''title'', mode = Some ''primary'', hidden = Some True\<rparr>,
        primaryAgent ''review'']) ''build'' 0
   \<and> indexOfName (filter isPrimary
       [primaryAgent ''build'', \<lparr>name = ''explore'', mode = Some ''subagent'', hidden = None\<rparr>,
        primaryAgent ''plan'', \<lparr>name = ''title'', mode = Some ''primary'', hidden = Some True\<rparr>,
        primaryAgent ''review'']) ''review'' 2
   \<and> cycleTuiToAgent
     (Some [primaryAgent ''build'', \<lparr>name = ''explore'', mode = Some ''subagent'', hidden = None\<rparr>,
            primaryAgent ''plan'', \<lparr>name = ''title'', mode = Some ''primary'', hidden = Some True\<rparr>,
            primaryAgent ''review''])
     (\<lambda>k. True) ''build'' (Some ''review'') = (True, 1)"
proof -
  let ?all = "[primaryAgent ''build'', \<lparr>name = ''explore'', mode = Some ''subagent'', hidden = None\<rparr>,
            primaryAgent ''plan'', \<lparr>name = ''title'', mode = Some ''primary'', hidden = Some True\<rparr>,
            primaryAgent ''review'']"
  have ps: "filter isPrimary ?all = [primaryAgent ''build'', primaryAgent ''plan'', primaryAgent ''review'']"
    by (simp add: isPrimary_def primaryAgent_def)
  have t: "indexOfName (filter isPrimary ?all) ''build'' 0"
    unfolding ps by (simp add: indexOfName_def primaryAgent_def)
  have c: "indexOfName (filter isPrimary ?all) ''review'' 2"
    unfolding ps by (simp add: indexOfName_def primaryAgent_def)
  then have c': "case Some ''review'' of None \<Rightarrow> (2::nat) = 0
       | Some c \<Rightarrow> indexOfName (filter isPrimary ?all) c 2"
    by simp
  from cycleTuiToAgent_steps [THEN conjunct1, rule_format, OF t c']
  have "cycleTuiToAgent (Some ?all) (\<lambda>k. True) ''build'' (Some ''review'') =
        (True, nat ((int 0 - int 2 + int (length (filter isPrimary ?all)))
                      mod int (length (filter isPrimary ?all))))" .
  then have "cycleTuiToAgent (Some ?all) (\<lambda>k. True) ''build'' (Some ''review'') = (True, 1)"
    unfolding ps by simp
  with t c show ?thesis by blast
qed

text \<open>
  Claim C10. Whenever a step count is computed it lies between 0 and the number of primary
  agents less one, so at most that many cycle commands are issued, whatever the terminal
  answers; and when the current agent, resolved, is the target, the count is 0 and no command
  is issued.
\<close>

theorem cycleSteps_bounded:
  assumes "cycleSteps allAgents targetAgent currentAgent = Some steps"
  shows "0 \<le> steps \<and> steps < int (length (filter isPrimary allAgents)) \<and>
         snd (cycleTuiToAgent (Some allAgents) execOk targetAgent currentAgent)
           \<le> length (filter isPrimary allAgents) - 1 \<and>
         (currentNameOf (filter isPrimary allAgents) currentAgent = Some targetAgent \<longrightarrow>
            steps = 0 \<and>
            cycleTuiToAgent (Some allAgents) execOk targetAgent currentAgent = (True, 0))"
proof -
  from cycleSteps_range [OF assms]
  have r: "0 \<le> steps" "steps < int (length (filter isPrimary allAgents))" by auto
  from cycleTuiToAgent_issued_le [OF assms, of execOk] r
  have le: "snd (cycleTuiToAgent (Some allAgents) execOk targetAgent currentAgent)
           \<le> length (filter isPrimary allAgents) - 1" by linarith
  have z: "currentNameOf (filter isPrimary allAgents) currentAgent = Some targetAgent \<longrightarrow>
            steps = 0 \<and>
            cycleTuiToAgent (Some allAgents) execOk targetAgent currentAgent = (True, 0)"
  proof
    assume "currentNameOf (filter isPrimary allAgents) currentAgent = Some targetAgent"
    from cycleSteps_same [OF assms this] have s0: "steps = 0" .
    with assms show "steps = 0 \<and>
            cycleTuiToAgent (Some allAgents) execOk targetAgent currentAgent = (True, 0)"
      by (simp add: cycleTuiToAgent_def cycleLoop.simps)
  qed
  from r le z show ?thesis by blast
qed

theorem cycleSteps_bounded_witness:
  "cycleSteps [primaryAgent ''A'', primaryAgent ''B'', primaryAgent ''C''] ''A'' None = Some 0
   \<and> currentNameOf (filter isPrimary [primaryAgent ''A'', primaryAgent ''B'', primaryAgent ''C'']) None = Some ''A''
   \<and> cycleTuiToAgent (Some [primaryAgent ''A'', primaryAgent ''B'', primaryAgent ''C'']) (\<lambda>k. False) ''A'' None
         = (True, 0)"
proof -
  let ?all = "[primaryAgent ''A'', primaryAgent ''B'', primaryAgent ''C'']"
  have h: "cycleSteps ?all ''A'' None = Some 0"
    by (simp add: cycleSteps_def primaryAgent_def isPrimary_def findIndex_def currentNameOf_def
        js_rem_def Let_def)
  have c: "currentNameOf (filter isPrimary ?all) None = Some ''A''"
    by (simp add: primaryAgent_def isPrimary_def currentNameOf_def)
  from cycleSteps_bounded [OF h, of "\<lambda>k. False"] c
  have "cycleTuiToAgent (Some ?all) (\<lambda>k. False) ''A'' None = (True, 0)"
    by blast
  with h c show ?thesis by blast
qed

section \<open>Facts about echo suppression\<close>

lemma findIndexFrom_none:
  "(\<forall>x \<in> set xs. \<not> P x) \<Longrightarrow> findIndexFrom P i xs = - 1"
  by (induction xs arbitrary: i) auto

lemma findIndex_none:
  "(\<forall>x \<in> set xs. \<not> P x) \<Longrightarrow> findIndex P xs = - 1"
  by (simp add: findIndex_def findIndexFrom_none)

lemma spliceOne_Suc: "spliceOne (Suc k) (y # ys) = y # spliceOne k ys"
  by (simp add: spliceOne_def)

lemma findIndexFrom_remove1:
  "x \<in> set b \<Longrightarrow> 0 \<le> i \<Longrightarrow>
     findIndexFrom (\<lambda>m. m = x) i b \<noteq> - 1 \<and>
     spliceOne (nat (findIndexFrom (\<lambda>m. m = x) i b - i)) b = remove1 x b"
proof (induction b arbitrary: i)
  case Nil
  then show ?case by simp
next
  case (Cons y ys)
  show ?case
  proof (cases "y = x")
    case True
    with Cons.prems show ?thesis by (simp add: spliceOne_def)
  next
    case False
    with Cons.prems have xin: "x \<in> set ys" and i1: "0 \<le> i + 1" by auto
    from Cons.IH [OF xin i1]
    have ne: "findIndexFrom (\<lambda>m. m = x) (i + 1) ys \<noteq> - 1"
      and sp: "spliceOne (nat (findIndexFrom (\<lambda>m. m = x) (i + 1) ys - (i + 1))) ys = remove1 x ys"
      by auto
    from findIndexFrom_range [OF i1, of "\<lambda>m. m = x" ys] ne
    have ge: "i + 1 \<le> findIndexFrom (\<lambda>m. m = x) (i + 1) ys" by auto
    then have "nat (findIndexFrom (\<lambda>m. m = x) (i + 1) ys - i)
                 = Suc (nat (findIndexFrom (\<lambda>m. m = x) (i + 1) ys - (i + 1)))"
      by simp
    with sp ne False show ?thesis by (simp add: spliceOne_Suc)
  qed
qed

lemma isFromUI_present:
  assumes "normalizeMessage content \<in> set buffer"
  shows "isFromUI content buffer = (True, remove1 (normalizeMessage content) buffer)"
  using findIndexFrom_remove1 [OF assms, of 0]
  by (simp add: isFromUI_def findIndex_def Let_def)

lemma isFromUI_absent:
  assumes "normalizeMessage content \<notin> set buffer"
  shows "isFromUI content buffer = (False, buffer)"
proof -
  from assms have "findIndex (\<lambda>m. m = normalizeMessage content) buffer = - 1"
    by (intro findIndex_none) auto
  then show ?thesis by (simp add: isFromUI_def Let_def)
qed

lemma addUIMessage_below:
  "length buffer < 50 \<Longrightarrow> addUIMessage content buffer = buffer @ [normalizeMessage content]"
  by (simp add: addUIMessage_def MAX_UI_MESSAGES_def Let_def)

lemma addUIMessage_full:
  "length buffer = 50 \<Longrightarrow>
     addUIMessage content buffer = drop 40 buffer @ [normalizeMessage content]"
  by (simp add: addUIMessage_def MAX_UI_MESSAGES_def Let_def)

lemma addUIMessage_length:
  "length buffer \<le> 50 \<Longrightarrow> length (addUIMessage content buffer) \<le> 50"
  by (auto simp add: addUIMessage_def MAX_UI_MESSAGES_def Let_def)

lemma addUIMessage_last:
  "addUIMessage content buffer \<noteq> [] \<and>
   last (addUIMessage content buffer) = normalizeMessage content \<and>
   set (butlast (addUIMessage content buffer)) \<subseteq> set buffer"
proof (cases "length (buffer @ [normalizeMessage content]) > 50")
  case True
  then have eq: "addUIMessage content buffer = drop 40 buffer @ [normalizeMessage content]"
    by (simp add: addUIMessage_def MAX_UI_MESSAGES_def Let_def)
  show ?thesis unfolding eq using set_drop_subset [of 40 buffer] by simp
next
  case False
  then have eq: "addUIMessage content buffer = buffer @ [normalizeMessage content]"
    by (simp add: addUIMessage_def MAX_UI_MESSAGES_def Let_def)
  show ?thesis unfolding eq by simp
qed

lemma recordAll_below:
  "length buffer + length contents \<le> 50 \<Longrightarrow>
     recordAll buffer contents = buffer @ map normalizeMessage contents"
proof (induction contents arbitrary: buffer)
  case Nil
  then show ?case by (simp add: recordAll_def)
next
  case (Cons c cs)
  from Cons.prems have "length buffer < 50" by simp
  then have a: "addUIMessage c buffer = buffer @ [normalizeMessage c]"
    by (rule addUIMessage_below)
  from Cons.prems have "length (buffer @ [normalizeMessage c]) + length cs \<le> 50" by simp
  from Cons.IH [OF this] a show ?case by (simp add: recordAll_def)
qed

lemma recordAll_snoc:
  "recordAll buffer (contents @ [c]) = addUIMessage c (recordAll buffer contents)"
  by (simp add: recordAll_def)

lemma recordAll_51:
  assumes "length contents = 51"
  shows "recordAll [] contents = map normalizeMessage (drop 40 contents)"
proof -
  from assms have ne: "contents \<noteq> []" by auto
  then have split: "contents = butlast contents @ [last contents]" by simp
  from assms have lb: "length (butlast contents) = 50" by simp
  then have "recordAll [] (butlast contents) = map normalizeMessage (butlast contents)"
    using recordAll_below [of "[]" "butlast contents"] by simp
  moreover have "recordAll [] contents = addUIMessage (last contents) (recordAll [] (butlast contents))"
    using recordAll_snoc [of "[]" "butlast contents" "last contents"] split by simp
  ultimately have "recordAll [] contents
      = addUIMessage (last contents) (map normalizeMessage (butlast contents))" by simp
  also have "\<dots> = drop 40 (map normalizeMessage (butlast contents)) @ [normalizeMessage (last contents)]"
    using lb by (intro addUIMessage_full) simp
  also have "\<dots> = drop 40 (map normalizeMessage (butlast contents @ [last contents]))"
    using lb by simp
  also have "\<dots> = map normalizeMessage (drop 40 contents)"
    using split by (simp add: drop_map)
  finally show ?thesis .
qed

lemma recordAll_capacity:
  "length buffer \<le> 50 \<Longrightarrow> length (recordAll buffer contents) \<le> 50"
proof (induction contents arbitrary: buffer)
  case Nil
  then show ?case by (simp add: recordAll_def)
next
  case (Cons c cs)
  from Cons.prems have "length (addUIMessage c buffer) \<le> 50" by (rule addUIMessage_length)
  from Cons.IH [OF this] show ?case by (simp add: recordAll_def)
qed

text \<open>
  Claim C5. The buffer of the echo suppressor holds at most 50 entries and evicts in a batch:
  recording into a buffer of 50 entries removes the 40 oldest at once and leaves 11, the ten
  youngest of before and the new one. So recording 51 texts into the empty buffer leaves
  exactly the last 11 of them, normalized; below the capacity a recording only appends.
\<close>

theorem addUIMessage_batch_eviction:
  "(\<forall>content buffer. length buffer = 50 \<longrightarrow>
      addUIMessage content buffer = drop 40 buffer @ [normalizeMessage content] \<and>
      length (addUIMessage content buffer) = 11)
   \<and> (\<forall>content buffer. length buffer < 50 \<longrightarrow>
      addUIMessage content buffer = buffer @ [normalizeMessage content])
   \<and> (\<forall>contents. length contents = 51 \<longrightarrow>
      recordAll [] contents = map normalizeMessage (drop 40 contents) \<and>
      length (recordAll [] contents) = 11)
   \<and> (\<forall>contents. length (recordAll [] contents) \<le> 50)"
proof (intro conjI allI impI)
  fix content :: string and buffer :: "string list"
  assume l: "length buffer = 50"
  then show "addUIMessage content buffer = drop 40 buffer @ [normalizeMessage content]"
    by (rule addUIMessage_full)
  with l show "length (addUIMessage content buffer) = 11" by simp
next
  fix content :: string and buffer :: "string list"
  assume "length buffer < 50"
  then show "addUIMessage content buffer = buffer @ [normalizeMessage content]"
    by (rule addUIMessage_below)
next
  fix contents :: "string list"
  assume l: "length contents = 51"
  then show "recordAll [] contents = map normalizeMessage (drop 40 contents)"
    by (rule recordAll_51)
  with l show "length (recordAll [] contents) = 11" by simp
next
  fix contents :: "string list"
  show "length (recordAll [] contents) \<le> 50"
    using recordAll_capacity [of "[]" contents] by simp
qed

text \<open>The same at fifty-one distinct texts.\<close>

theorem addUIMessage_batch_eviction_witness:
  "length exampleTexts = 51 \<and> distinct exampleTexts \<and>
   length (recordAll [] exampleTexts) = 11 \<and>
   recordAll [] exampleTexts = map normalizeMessage (drop 40 exampleTexts)"
proof -
  have l: "length exampleTexts = 51" by (simp add: exampleTexts_def)
  have "inj_on (\<lambda>n. replicate (Suc n) (CHR ''a'')) (set [0..<51])"
    by (rule inj_onI) (metis length_replicate nat.inject)
  then have d: "distinct exampleTexts"
    unfolding exampleTexts_def by (simp add: distinct_map)
  from addUIMessage_batch_eviction
  have "\<forall>contents. length contents = 51 \<longrightarrow>
      recordAll [] contents = map normalizeMessage (drop 40 contents) \<and>
      length (recordAll [] contents) = 11" by blast
  with l have "recordAll [] exampleTexts = map normalizeMessage (drop 40 exampleTexts) \<and>
      length (recordAll [] exampleTexts) = 11" by blast
  with l d show ?thesis by blast
qed

lemma one_shot:
  assumes fresh: "normalizeMessage t \<notin> set buffer"
      and same: "normalizeMessage t' = normalizeMessage t"
  shows "isFromUI t' (addUIMessage t buffer) = (True, butlast (addUIMessage t buffer))"
    and "isFromUI t' (butlast (addUIMessage t buffer)) = (False, butlast (addUIMessage t buffer))"
proof -
  let ?b = "addUIMessage t buffer"
  from addUIMessage_last [of t buffer]
  have ne: "?b \<noteq> []" and la: "last ?b = normalizeMessage t"
    and sub: "set (butlast ?b) \<subseteq> set buffer" by auto
  from ne la have split: "?b = butlast ?b @ [normalizeMessage t]"
    by (metis append_butlast_last_id)
  from sub fresh have notin: "normalizeMessage t \<notin> set (butlast ?b)" by auto
  have mem: "normalizeMessage t' \<in> set ?b"
    using split same by (metis in_set_conv_decomp)
  have "remove1 (normalizeMessage t) ?b = butlast ?b"
    using notin split by (metis remove1_append remove1.simps(2) append_Nil2)
  with isFromUI_present [OF mem] same
  show "isFromUI t' ?b = (True, butlast ?b)" by simp
  from notin same have "normalizeMessage t' \<notin> set (butlast ?b)" by simp
  then show "isFromUI t' (butlast ?b) = (False, butlast ?b)" by (rule isFromUI_absent)
qed

text \<open>
  Claim C6. Echo suppression is a check-and-remove, once, over normalized text. \<open>isFromUI\<close>
  answers \<open>true\<close> exactly when the normalized text is in the buffer, and then removes its
  first entry and no other. After a text is recorded that the buffer did not hold, the first
  check of any text with the same normal form answers \<open>true\<close> and takes one entry away, and
  the second check answers \<open>false\<close>; so for \<open>hi\<close> recorded into the empty buffer.
  Normalizing turns each CR LF into LF and trims white space at both ends.
\<close>

theorem isFromUI_one_shot:
  "(\<forall>content buffer. normalizeMessage content \<in> set buffer \<longrightarrow>
      isFromUI content buffer = (True, remove1 (normalizeMessage content) buffer))
   \<and> (\<forall>content buffer. normalizeMessage content \<notin> set buffer \<longrightarrow>
      isFromUI content buffer = (False, buffer))
   \<and> (\<forall>t t' buffer.
        normalizeMessage t \<notin> set buffer \<longrightarrow> normalizeMessage t' = normalizeMessage t \<longrightarrow>
        fst (isFromUI t' (addUIMessage t buffer)) \<and>
        length (snd (isFromUI t' (addUIMessage t buffer))) + 1 = length (addUIMessage t buffer) \<and>
        \<not> fst (isFromUI t' (snd (isFromUI t' (addUIMessage t buffer)))))
   \<and> isFromUI ''hi'' (addUIMessage ''hi'' []) = (True, [])
   \<and> isFromUI ''hi'' (snd (isFromUI ''hi'' (addUIMessage ''hi'' []))) = (False, [])
   \<and> normalizeMessage [CHR '' '', CHR ''h'', CHR ''i'', CHR 0x0D, CHR 0x0A, CHR ''!'', CHR 0x0D, CHR 0x0A, CHR 0x09]
       = [CHR ''h'', CHR ''i'', CHR 0x0A, CHR ''!'']"
proof (intro conjI allI impI)
  fix content :: string and buffer :: "string list"
  assume "normalizeMessage content \<in> set buffer"
  then show "isFromUI content buffer = (True, remove1 (normalizeMessage content) buffer)"
    by (rule isFromUI_present)
next
  fix content :: string and buffer :: "string list"
  assume "normalizeMessage content \<notin> set buffer"
  then show "isFromUI content buffer = (False, buffer)"
    by (rule isFromUI_absent)
next
  fix t t' :: string and buffer :: "string list"
  assume a: "normalizeMessage t \<notin> set buffer" "normalizeMessage t' = normalizeMessage t"
  note os = one_shot [OF a]
  from os(1) show "fst (isFromUI t' (addUIMessage t buffer))" by simp
  from os(1) addUIMessage_last [of t buffer]
  show "length (snd (isFromUI t' (addUIMessage t buffer))) + 1 = length (addUIMessage t buffer)"
    by simp
  from os show "\<not> fst (isFromUI t' (snd (isFromUI t' (addUIMessage t buffer))))" by simp
next
  show "isFromUI ''hi'' (addUIMessage ''hi'' []) = (True, [])"
    by (simp add: isFromUI_def addUIMessage_def MAX_UI_MESSAGES_def normalizeMessage_def trim_def
        isWhiteSpace_def findIndex_def spliceOne_def Let_def)
next
  show "isFromUI ''hi'' (snd (isFromUI ''hi'' (addUIMessage ''hi'' []))) = (False, [])"
    by (simp add: isFromUI_def addUIMessage_def MAX_UI_MESSAGES_def normalizeMessage_def trim_def
        isWhiteSpace_def findIndex_def spliceOne_def Let_def)
next
  show "normalizeMessage [CHR '' '', CHR ''h'', CHR ''i'', CHR 0x0D, CHR 0x0A, CHR ''!'', CHR 0x0D, CHR 0x0A, CHR 0x09]
       = [CHR ''h'', CHR ''i'', CHR 0x0A, CHR ''!'']"
    by (simp add: normalizeMessage_def trim_def isWhiteSpace_def)
qed

text \<open>The same at a buffer of two entries, with a check that ends in CR LF.\<close>

theorem isFromUI_one_shot_witness:
  "normalizeMessage ''ok'' \<notin> set [''first'', ''second'']
   \<and> normalizeMessage [CHR ''o'', CHR ''k'', CHR 0x0D, CHR 0x0A] = normalizeMessage ''ok''
   \<and> normalizeMessage ''first'' \<in> set [''first'', ''second'']
   \<and> fst (isFromUI [CHR ''o'', CHR ''k'', CHR 0x0D, CHR 0x0A] (addUIMessage ''ok'' [''first'', ''second'']))
   \<and> \<not> fst (isFromUI [CHR ''o'', CHR ''k'', CHR 0x0D, CHR 0x0A]
            (snd (isFromUI [CHR ''o'', CHR ''k'', CHR 0x0D, CHR 0x0A]
                    (addUIMessage ''ok'' [''first'', ''second'']))))
   \<and> isFromUI ''first'' [''first'', ''second''] = (True, [''second''])
   \<and> isFromUI ''ok'' [''first'', ''second''] = (False, [''first'', ''second''])"
proof -
  have n: "normalizeMessage ''ok'' = ''ok''" "normalizeMessage ''first'' = ''first''"
    "normalizeMessage [CHR ''o'', CHR ''k'', CHR 0x0D, CHR 0x0A] = ''ok''"
    by (simp_all add: normalizeMessage_def trim_def isWhiteSpace_def)
  have h1: "normalizeMessage ''ok'' \<notin> set [''first'', ''second'']" by (simp add: n)
  have h2: "normalizeMessage [CHR ''o'', CHR ''k'', CHR 0x0D, CHR 0x0A] = normalizeMessage ''ok''"
    by (simp add: n)
  have h3: "normalizeMessage ''first'' \<in> set [''first'', ''second'']" by (simp add: n)
  note main = isFromUI_one_shot
  from main h3 have a: "isFromUI ''first'' [''first'', ''second'']
      = (True, remove1 (normalizeMessage ''first'') [''first'', ''second''])" by blast
  from main h1 have b: "isFromUI ''ok'' [''first'', ''second''] = (False, [''first'', ''second''])"
    by blast
  from main h1 h2 have c: "fst (isFromUI [CHR ''o'', CHR ''k'', CHR 0x0D, CHR 0x0A] (addUIMessage ''ok'' [''first'', ''second''])) \<and>
     \<not> fst (isFromUI [CHR ''o'', CHR ''k'', CHR 0x0D, CHR 0x0A]
            (snd (isFromUI [CHR ''o'', CHR ''k'', CHR 0x0D, CHR 0x0A]
                    (addUIMessage ''ok'' [''first'', ''second'']))))" by blast
  from a have a': "isFromUI ''first'' [''first'', ''second''] = (True, [''second''])"
    by (simp add: n)
  from h1 h2 h3 a' b c show ?thesis by blast
qed

section \<open>Facts about the forwarded message ids\<close>

lemma track_known:
  "messageId \<in> ids \<Longrightarrow> trackSentMessage (ids, queue) messageId = (ids, queue)"
  by (simp add: trackSentMessage_def)

lemma track_below:
  "messageId \<notin> ids \<Longrightarrow> length queue < 200 \<Longrightarrow>
     trackSentMessage (ids, queue) messageId = (insert messageId ids, queue @ [messageId])"
  by (simp add: trackSentMessage_def MAX_SENT_MESSAGE_IDS_def Let_def)

lemma track_full:
  assumes "messageId \<notin> ids" and "length queue = 200"
  shows "trackSentMessage (ids, queue) messageId =
           (if hd queue \<noteq> [] then insert messageId ids - {hd queue} else insert messageId ids,
            tl queue @ [messageId])"
proof -
  from assms(2) obtain q qs where q: "queue = q # qs" by (cases queue) auto
  with assms show ?thesis
    by (simp add: trackSentMessage_def MAX_SENT_MESSAGE_IDS_def Let_def)
qed

lemma trackAll_snoc:
  "trackAll registry (messageIds @ [m]) = trackSentMessage (trackAll registry messageIds) m"
  by (simp add: trackAll_def)

lemma trackAll_fresh:
  "distinct messageIds \<Longrightarrow> length messageIds \<le> 200 \<Longrightarrow>
     trackAll ({}, []) messageIds = (set messageIds, messageIds)"
proof (induction messageIds rule: rev_induct)
  case Nil
  then show ?case by (simp add: trackAll_def)
next
  case (snoc m ms)
  then have ih: "trackAll ({}, []) ms = (set ms, ms)" by simp
  from snoc.prems have "m \<notin> set ms" "length ms < 200" by auto
  then have "trackSentMessage (set ms, ms) m = (insert m (set ms), ms @ [m])"
    by (rule track_below)
  with ih show ?case by (simp add: trackAll_snoc)
qed

lemma track_invariant:
  assumes inv: "registryInvariant registry" and ne: "[] \<notin> set (snd registry)"
      and m: "messageId \<noteq> []"
  shows "registryInvariant (trackSentMessage registry messageId) \<and>
         [] \<notin> set (snd (trackSentMessage registry messageId))"
proof -
  obtain ids queue where r: "registry = (ids, queue)" by (cases registry)
  from inv r have ids: "ids = set queue" and d: "distinct queue" and l: "length queue \<le> 200"
    by (auto simp: registryInvariant_def MAX_SENT_MESSAGE_IDS_def)
  from ne r have neq: "[] \<notin> set queue" by simp
  show ?thesis
  proof (cases "messageId \<in> ids")
    case True
    with inv ne r show ?thesis by (simp add: track_known)
  next
    case False
    note fresh = this
    show ?thesis
    proof (cases "length queue < 200")
      case True
      from track_below [OF fresh True]
      have t: "trackSentMessage registry messageId = (insert messageId ids, queue @ [messageId])"
        by (simp add: r)
      from fresh ids d have d': "distinct (queue @ [messageId])" by simp
      from True have l': "length (queue @ [messageId]) \<le> 200" by simp
      have s': "insert messageId ids = set (queue @ [messageId])" using ids by simp
      have "card (set (queue @ [messageId])) \<le> 200"
        using distinct_card [OF d'] l' by simp
      with t d' l' s' neq m show ?thesis
        by (simp add: registryInvariant_def MAX_SENT_MESSAGE_IDS_def)
    next
      case False
      with l have full: "length queue = 200" by simp
      then obtain q qs where q: "queue = q # qs" by (cases queue) auto
      from neq q have qne: "q \<noteq> []" by auto
      from track_full [OF fresh full] q qne
      have t: "trackSentMessage registry messageId = (insert messageId ids - {q}, qs @ [messageId])"
        by (simp add: r)
      from d q have qn: "q \<notin> set qs" and dq: "distinct qs" by auto
      from fresh ids q have mq: "messageId \<noteq> q" and mn: "messageId \<notin> set qs" by auto
      from dq mn have d': "distinct (qs @ [messageId])" by simp
      from full q have l': "length (qs @ [messageId]) = 200" by simp
      have s': "insert messageId ids - {q} = set (qs @ [messageId])"
        using ids q qn mq by auto
      have "card (set (qs @ [messageId])) \<le> 200"
        using distinct_card [OF d'] l' by simp
      with t d' l' s' neq q m show ?thesis
        by (simp add: registryInvariant_def MAX_SENT_MESSAGE_IDS_def)
    qed
  qed
qed

lemma trackAll_invariant_from:
  "registryInvariant registry \<Longrightarrow> [] \<notin> set (snd registry) \<Longrightarrow> [] \<notin> set messageIds \<Longrightarrow>
     registryInvariant (trackAll registry messageIds) \<and>
     [] \<notin> set (snd (trackAll registry messageIds))"
proof (induction messageIds rule: rev_induct)
  case Nil
  then show ?case by (simp add: trackAll_def)
next
  case (snoc m ms)
  then have ih: "registryInvariant (trackAll registry ms)"
    "[] \<notin> set (snd (trackAll registry ms))" by auto
  from snoc.prems have "m \<noteq> []" by auto
  from track_invariant [OF ih this] show ?case by (simp add: trackAll_snoc)
qed

lemma exampleIds_facts:
  "length exampleIds = 200" "distinct exampleIds" "[] \<notin> set exampleIds"
  "''new'' \<notin> set exampleIds" "hd exampleIds = ''m''" "exampleIds \<noteq> []"
proof -
  show "length exampleIds = 200" by (simp add: exampleIds_def)
  have "inj_on (\<lambda>n. CHR ''m'' # replicate n (CHR ''0'')) (set [0..<200])"
    by (rule inj_onI) (metis length_replicate list.inject)
  then show "distinct exampleIds" unfolding exampleIds_def by (simp add: distinct_map)
  show "[] \<notin> set exampleIds" by (auto simp: exampleIds_def)
  show "''new'' \<notin> set exampleIds" by (auto simp: exampleIds_def)
  have "[0..<200] = 0 # [1..<200]" by (simp add: upt_conv_Cons)
  then show "hd exampleIds = ''m''" by (simp add: exampleIds_def)
  show "exampleIds \<noteq> []" by (simp add: exampleIds_def)
qed



section \<open>Facts about message parts and their forwarding\<close>

lemma accumulatedText_text:
  assumes "mid \<noteq> []"
  shows "accumulatedText (handlePartUpdate (TextPart pid (Some mid) t) delta store) mid pid =
           (case delta of
              Some d \<Rightarrow> accumulatedText store mid pid @ d
            | None \<Rightarrow> (if t \<noteq> [] then t else accumulatedText store mid pid))"
proof (cases "store mid")
  case None
  with assms show ?thesis
    by (cases delta)
       (simp_all add: handlePartUpdate_def getMessageState_def accumulatedText_def emptyState_def
          setPartContent_def Let_def)
next
  case (Some state)
  with assms show ?thesis
    by (cases delta; cases "textByPartId state pid")
       (simp_all add: handlePartUpdate_def getMessageState_def accumulatedText_def
          setPartContent_def Let_def)
qed

lemma buildMessageContent_noKept:
  assumes "noKeptParts store mid"
  shows "buildMessageContent store mid = []"
proof (cases "store mid")
  case None
  then show ?thesis by (simp add: buildMessageContent_def)
next
  case (Some state)
  with assms have "\<forall>pid \<in> set (order state). \<not> keptPart (parts state pid)"
    by (simp add: noKeptParts_def list_all_iff)
  then have "filter keptPart (map (parts state) (order state)) = []"
    by (simp add: filter_empty_conv)
  with Some show ?thesis by (simp add: buildMessageContent_def trim_def)
qed

lemma onMessageUpdated_assistant:
  assumes "role message = ''assistant''"
  shows "snd (onMessageUpdated message st) =
           (if timeCompleted message \<noteq> None \<and> timeCompleted message \<noteq> Some 0
               \<and> buildMessageContent (messagePartsById st) (msgId message) \<noteq> []
               \<and> msgId message \<notin> sentAssistantMessageIds st
            then [SendMessage (buildMessageContent (messagePartsById st) (msgId message))]
            else [])"
proof -
  have u: "''assistant'' \<noteq> ''user''" by simp
  show ?thesis
    using assms u
    by (cases "agent message")
       (simp_all add: onMessageUpdated_def Let_def split: prod.splits)
qed

lemma textEvent_first: "textEvent ''Hel'' (Some ''Hel'') Map.empty = oneText ''Hel''"
  by (simp add: textEvent_def oneText_def handlePartUpdate_def getMessageState_def emptyState_def
      setPartContent_def Let_def)

lemma textEvent_delta: "textEvent ''Hello'' (Some ''lo'') (oneText ''Hel'') = oneText ''Hello''"
  by (simp add: textEvent_def oneText_def handlePartUpdate_def getMessageState_def
      setPartContent_def Let_def)

lemma textEvent_full: "textEvent ''Bye'' None (oneText ''Hello'') = oneText ''Bye''"
  by (simp add: textEvent_def oneText_def handlePartUpdate_def getMessageState_def
      setPartContent_def Let_def)

lemma textEvent_empty_full: "textEvent [] None (oneText ''Hello'') = oneText ''Hello''"
  by (simp add: textEvent_def oneText_def handlePartUpdate_def getMessageState_def
      setPartContent_def Let_def)

lemma oneText_accumulated: "accumulatedText (oneText t) ''m1'' ''p1'' = t"
  by (simp add: oneText_def accumulatedText_def)

lemma oneText_content_Hello: "buildMessageContent (oneText ''Hello'') ''m1'' = ''Hello''"
  by (simp add: oneText_def buildMessageContent_def keptPart_def trim_def isWhiteSpace_def)

lemma oneText_content_Bye: "buildMessageContent (oneText ''Bye'') ''m1'' = ''Bye''"
  by (simp add: oneText_def buildMessageContent_def keptPart_def trim_def isWhiteSpace_def)

text \<open>
  Claim C4, as amended. For a text part of a message (its message id not empty): an event with
  a delta appends the delta to the text accumulated for the part; an event without a delta
  and with a full text that is not empty replaces the accumulated text with it; an event
  without a delta whose full text is empty leaves the accumulated text as it was. The deltas
  \<open>Hel\<close> and \<open>lo\<close> accumulate and assemble to \<open>Hello\<close>, and the full text \<open>Bye\<close> after them
  overwrites it.
\<close>

theorem handlePartUpdate_text:
  "(\<forall>pid mid t d store. mid \<noteq> [] \<longrightarrow>
      accumulatedText (handlePartUpdate (TextPart pid (Some mid) t) (Some d) store) mid pid
        = accumulatedText store mid pid @ d)
   \<and> (\<forall>pid mid t store. mid \<noteq> [] \<longrightarrow> t \<noteq> [] \<longrightarrow>
      accumulatedText (handlePartUpdate (TextPart pid (Some mid) t) None store) mid pid = t)
   \<and> (\<forall>pid mid store. mid \<noteq> [] \<longrightarrow>
      accumulatedText (handlePartUpdate (TextPart pid (Some mid) []) None store) mid pid
        = accumulatedText store mid pid)
   \<and> accumulatedText (textEvent ''Hello'' (Some ''lo'') (textEvent ''Hel'' (Some ''Hel'') Map.empty))
         ''m1'' ''p1'' = ''Hello''
   \<and> buildMessageContent (textEvent ''Hello'' (Some ''lo'') (textEvent ''Hel'' (Some ''Hel'') Map.empty))
         ''m1'' = ''Hello''
   \<and> accumulatedText
         (textEvent ''Bye'' None
            (textEvent ''Hello'' (Some ''lo'') (textEvent ''Hel'' (Some ''Hel'') Map.empty)))
         ''m1'' ''p1'' = ''Bye''
   \<and> buildMessageContent
         (textEvent ''Bye'' None
            (textEvent ''Hello'' (Some ''lo'') (textEvent ''Hel'' (Some ''Hel'') Map.empty)))
         ''m1'' = ''Bye''"
proof (intro conjI allI impI)
  fix pid mid t d :: string and store :: "string \<rightharpoonup> MessagePartsState"
  assume "mid \<noteq> []"
  then show "accumulatedText (handlePartUpdate (TextPart pid (Some mid) t) (Some d) store) mid pid
        = accumulatedText store mid pid @ d"
    by (simp add: accumulatedText_text)
next
  fix pid mid t :: string and store :: "string \<rightharpoonup> MessagePartsState"
  assume "mid \<noteq> []" "t \<noteq> []"
  then show "accumulatedText (handlePartUpdate (TextPart pid (Some mid) t) None store) mid pid = t"
    by (simp add: accumulatedText_text)
next
  fix pid mid :: string and store :: "string \<rightharpoonup> MessagePartsState"
  assume "mid \<noteq> []"
  then show "accumulatedText (handlePartUpdate (TextPart pid (Some mid) []) None store) mid pid
        = accumulatedText store mid pid"
    by (simp add: accumulatedText_text)
qed (simp_all add: textEvent_first textEvent_delta textEvent_full oneText_accumulated
      oneText_content_Hello oneText_content_Bye)

text \<open>The three cases at the part \<open>p1\<close> of the message \<open>m1\<close>.\<close>

theorem handlePartUpdate_text_witness:
  "''m1'' \<noteq> [] \<and> ''Bye'' \<noteq> []
   \<and> accumulatedText (textEvent ''Hel'' (Some ''Hel'') Map.empty) ''m1'' ''p1'' = ''Hel''
   \<and> accumulatedText (textEvent ''Bye'' None (textEvent ''Hel'' (Some ''Hel'') Map.empty))
         ''m1'' ''p1'' = ''Bye''
   \<and> accumulatedText (textEvent [] None (textEvent ''Hel'' (Some ''Hel'') Map.empty))
         ''m1'' ''p1'' = ''Hel''"
proof -
  have m: "''m1'' \<noteq> []" and b: "''Bye'' \<noteq> []" by simp_all
  note delta = handlePartUpdate_text [THEN conjunct1, rule_format]
  note full = handlePartUpdate_text [THEN conjunct2, THEN conjunct1, rule_format]
  note empty = handlePartUpdate_text [THEN conjunct2, THEN conjunct2, THEN conjunct1, rule_format]
  have e: "accumulatedText Map.empty ''m1'' ''p1'' = []" by (simp add: accumulatedText_def)
  have 1: "accumulatedText (textEvent ''Hel'' (Some ''Hel'') Map.empty) ''m1'' ''p1'' = ''Hel''"
    unfolding textEvent_def using delta [OF m, of "''p1''" "''Hel''" "''Hel''" Map.empty] e
    by simp
  have 2: "accumulatedText (textEvent ''Bye'' None (textEvent ''Hel'' (Some ''Hel'') Map.empty))
         ''m1'' ''p1'' = ''Bye''"
    using full [OF m b, of "''p1''" "textEvent ''Hel'' (Some ''Hel'') Map.empty"]
    by (simp add: textEvent_def)
  have 3: "accumulatedText (textEvent [] None (textEvent ''Hel'' (Some ''Hel'') Map.empty))
         ''m1'' ''p1'' = ''Hel''"
    using empty [OF m, of "''p1''" "textEvent ''Hel'' (Some ''Hel'') Map.empty"] 1
    by (simp add: textEvent_def)
  show ?thesis
    by (intro conjI) (rule m, rule b, rule 1, rule 2, rule 3)
qed

text \<open>
  Claim C4 as worded fails where the full text is empty: after \<open>Hello\<close> is accumulated, an
  event without a delta and with the empty text does not replace it; \<open>Hello\<close> stays.
\<close>

theorem handlePartUpdate_replace_counterexample:
  "accumulatedText
     (textEvent [] None (textEvent ''Hello'' (Some ''lo'') (textEvent ''Hel'' (Some ''Hel'') Map.empty)))
     ''m1'' ''p1'' = ''Hello''
   \<and> accumulatedText
     (textEvent [] None (textEvent ''Hello'' (Some ''lo'') (textEvent ''Hel'' (Some ''Hel'') Map.empty)))
     ''m1'' ''p1'' \<noteq> []"
  by (simp add: textEvent_first textEvent_delta textEvent_empty_full oneText_accumulated)

text \<open>
  Claim C8. For a message id whose state holds no part that is kept, or that has no state,
  assembly yields the empty string, and the hook sends nothing to the remote side when such an
  assistant message is updated or completed. Whatever the hook sends for an assistant message
  is the assembled, trimmed text, and it is not empty.
\<close>

theorem buildMessageContent_empty_not_forwarded:
  "(\<forall>store mid. noKeptParts store mid \<longrightarrow> buildMessageContent store mid = [])
   \<and> (\<forall>message st.
        role message = ''assistant'' \<longrightarrow> noKeptParts (messagePartsById st) (msgId message) \<longrightarrow>
        snd (onMessageUpdated message st) = [])
   \<and> (\<forall>message st text.
        role message = ''assistant'' \<longrightarrow>
        SendMessage text \<in> set (snd (onMessageUpdated message st)) \<longrightarrow>
        text \<noteq> [] \<and> text = buildMessageContent (messagePartsById st) (msgId message))"
proof (intro conjI allI impI)
  fix store :: "string \<rightharpoonup> MessagePartsState" and mid :: string
  assume "noKeptParts store mid"
  then show "buildMessageContent store mid = []" by (rule buildMessageContent_noKept)
next
  fix message :: Message and st :: PluginState
  assume r: "role message = ''assistant''"
     and n: "noKeptParts (messagePartsById st) (msgId message)"
  from n have "buildMessageContent (messagePartsById st) (msgId message) = []"
    by (rule buildMessageContent_noKept)
  with onMessageUpdated_assistant [OF r, of st]
  show "snd (onMessageUpdated message st) = []" by simp
next
  fix message :: Message and st :: PluginState and body :: string
  assume r: "role message = ''assistant''"
     and s: "SendMessage body \<in> set (snd (onMessageUpdated message st))"
  from s onMessageUpdated_assistant [OF r, of st]
  have c: "buildMessageContent (messagePartsById st) (msgId message) \<noteq> []"
    and t: "body = buildMessageContent (messagePartsById st) (msgId message)"
    by (auto split: if_splits)
  from c t show "body \<noteq> []" by simp
  from t show "body = buildMessageContent (messagePartsById st) (msgId message)" .
qed

lemma blankStore_reached:
  "handlePartUpdate (TextPart ''p1'' (Some ''m1'') ''  '') None
     (handlePartUpdate (ReasoningPart ''p0'' (Some ''m1'') []) None Map.empty) = blankStore"
proof -
  have "handlePartUpdate (ReasoningPart ''p0'' (Some ''m1'') []) None Map.empty
          = [''m1'' \<mapsto> \<lparr>order = [''p0''], parts = Map.empty, textByPartId = Map.empty\<rparr>]"
    by (simp add: handlePartUpdate_def getMessageState_def emptyState_def setPartContent_def
        formatReasoningPart_def Let_def)
  then show ?thesis
    by (simp add: blankStore_def handlePartUpdate_def getMessageState_def setPartContent_def Let_def)
qed

text \<open>
  The same at a message whose parts are a reasoning part without content and a text part of
  two spaces, and at a message whose text is \<open>Hello\<close>, which is sent.
\<close>

theorem buildMessageContent_empty_not_forwarded_witness:
  "noKeptParts blankStore ''m1''
   \<and> buildMessageContent blankStore ''m1'' = []
   \<and> role completedM1 = ''assistant''
   \<and> snd (onMessageUpdated completedM1 (stateWith blankStore)) = []
   \<and> SendMessage ''Hello'' \<in> set (snd (onMessageUpdated completedM1 (stateWith (oneText ''Hello''))))
   \<and> ''Hello'' \<noteq> []
   \<and> ''Hello'' = buildMessageContent (messagePartsById (stateWith (oneText ''Hello''))) (msgId completedM1)"
proof -
  note empty = buildMessageContent_empty_not_forwarded [THEN conjunct1, rule_format]
  note quiet = buildMessageContent_empty_not_forwarded [THEN conjunct2, THEN conjunct1, rule_format]
  note sent = buildMessageContent_empty_not_forwarded [THEN conjunct2, THEN conjunct2, rule_format]
  have n: "noKeptParts blankStore ''m1''"
    by (simp add: noKeptParts_def blankStore_def keptPart_def trim_def isWhiteSpace_def)
  have r: "role completedM1 = ''assistant''" by (simp add: completedM1_def)
  have i: "msgId completedM1 = ''m1''" by (simp add: completedM1_def)
  have s1: "messagePartsById (stateWith blankStore) = blankStore"
    and s2: "messagePartsById (stateWith (oneText ''Hello'')) = oneText ''Hello''"
    by (simp_all add: stateWith_def)
  from n have n': "noKeptParts (messagePartsById (stateWith blankStore)) (msgId completedM1)"
    by (simp add: s1 i)
  have h: "SendMessage ''Hello'' \<in> set (snd (onMessageUpdated completedM1 (stateWith (oneText ''Hello''))))"
    using onMessageUpdated_assistant [OF r, of "stateWith (oneText ''Hello'')"]
    by (simp add: s2 i oneText_content_Hello) (simp add: completedM1_def stateWith_def initialState_def)
  from sent [OF r h]
  have t: "''Hello'' \<noteq> []"
    "''Hello'' = buildMessageContent (messagePartsById (stateWith (oneText ''Hello''))) (msgId completedM1)"
    by simp_all
  show ?thesis
    by (intro conjI) (rule n, rule empty [OF n], rule r, rule quiet [OF r n'], rule h, rule t(1), rule t(2))
qed

section \<open>Facts about permission replies\<close>

lemma labelMatch_first:
  "i < length opts \<Longrightarrow> toLowerCase (label (opts ! i)) = t \<Longrightarrow>
   (\<forall>k<i. toLowerCase (label (opts ! k)) \<noteq> t) \<Longrightarrow>
     labelMatch t opts = Some (response (opts ! i))"
proof (induction opts arbitrary: i)
  case Nil
  then show ?case by simp
next
  case (Cons opt opts)
  show ?case
  proof (cases i)
    case 0
    with Cons.prems show ?thesis by simp
  next
    case (Suc j)
    from Cons.prems Suc have first: "toLowerCase (label opt) \<noteq> t" by auto
    from Cons.prems Suc have "j < length opts" "toLowerCase (label (opts ! j)) = t"
      "\<forall>k<j. toLowerCase (label (opts ! k)) \<noteq> t" by auto
    then have "labelMatch t opts = Some (response (opts ! j))" by (rule Cons.IH)
    with first Suc show ?thesis by simp
  qed
qed

lemma labelMatch_none:
  "(\<forall>opt \<in> set opts. toLowerCase (label opt) \<noteq> t) \<Longrightarrow> labelMatch t opts = None"
  by (induction opts) auto

lemma parseInt10_leading:
  assumes ne: "ds \<noteq> []" and dig: "list_all isDigit ds"
      and stop: "rest = [] \<or> \<not> isDigit (hd rest)"
  shows "parseInt10 (ds @ rest) = Some (int (decimalValue ds))"
    and "parseInt10 (CHR ''+'' # ds @ rest) = Some (int (decimalValue ds))"
    and "parseInt10 (CHR ''-'' # ds @ rest) = Some (- int (decimalValue ds))"
proof -
  from ne obtain d ds' where ds: "ds = d # ds'" by (cases ds) auto
  with dig have d: "isDigit d" by simp
  then have nw: "\<not> isWhiteSpace d" and nm: "d \<noteq> CHR ''-''" and np: "d \<noteq> CHR ''+''"
    by (auto simp: isDigit_def isWhiteSpace_def)
  from dig have all: "\<And>x. x \<in> set ds \<Longrightarrow> isDigit x" by (simp add: list_all_iff)
  from stop have tr: "takeWhile isDigit rest = []" by (cases rest) auto
  have tw: "takeWhile isDigit (ds @ rest) = ds"
    using takeWhile_append2 [of ds isDigit rest] all tr by simp
  have sk: "dropWhile isWhiteSpace (ds @ rest) = ds @ rest" using nw ds by simp
  show "parseInt10 (ds @ rest) = Some (int (decimalValue ds))"
    unfolding parseInt10_def sk using tw nm np ne ds by (simp add: Let_def)
  have pw: "\<not> isWhiteSpace (CHR ''+'')" by (simp add: isWhiteSpace_def)
  then have sk2: "dropWhile isWhiteSpace (CHR ''+'' # ds @ rest) = CHR ''+'' # ds @ rest" by simp
  show "parseInt10 (CHR ''+'' # ds @ rest) = Some (int (decimalValue ds))"
    unfolding parseInt10_def sk2 using tw ne by (simp add: Let_def)
  have mw: "\<not> isWhiteSpace (CHR ''-'')" by (simp add: isWhiteSpace_def)
  then have sk3: "dropWhile isWhiteSpace (CHR ''-'' # ds @ rest) = CHR ''-'' # ds @ rest" by simp
  show "parseInt10 (CHR ''-'' # ds @ rest) = Some (- int (decimalValue ds))"
    unfolding parseInt10_def sk3 using tw ne by (simp add: Let_def)
qed

lemma parsePermissionReply_label:
  assumes "i < length opts" "toLowerCase (label (opts ! i)) = toLowerCase (trim reply)"
      "\<forall>k<i. toLowerCase (label (opts ! k)) \<noteq> toLowerCase (trim reply)"
  shows "parsePermissionReply reply opts = Some (response (opts ! i))"
  using labelMatch_first [OF assms] by (simp add: parsePermissionReply_def Let_def)

lemma parsePermissionReply_numeric:
  assumes "\<forall>opt \<in> set opts. toLowerCase (label opt) \<noteq> toLowerCase (trim reply)"
      and "parseInt10 (toLowerCase (trim reply)) = Some k" and "1 \<le> k" and "k \<le> int (length opts)"
  shows "parsePermissionReply reply opts = Some (response (opts ! nat (k - 1)))"
  using labelMatch_none [OF assms(1)] assms(2-4)
  by (simp add: parsePermissionReply_def numericMatch_def Let_def)

lemma parsePermissionReply_keyword:
  assumes "\<forall>opt \<in> set opts. toLowerCase (label opt) \<noteq> toLowerCase (trim reply)"
      and "\<forall>k. parseInt10 (toLowerCase (trim reply)) = Some k \<longrightarrow> k < 1 \<or> int (length opts) < k"
  shows "parsePermissionReply reply opts = keywordMatch (toLowerCase (trim reply))"
proof -
  from assms(2) have "numericMatch (toLowerCase (trim reply)) opts = None"
    by (cases "parseInt10 (toLowerCase (trim reply))") (auto simp: numericMatch_def)
  with labelMatch_none [OF assms(1)] show ?thesis
    by (simp add: parsePermissionReply_def Let_def)
qed

lemma lowerUnit_idem: "lowerUnit (lowerUnit c) = lowerUnit c"
proof (cases c)
  case (Char b0 b1 b2 b3 b4 b5 b6 b7)
  show ?thesis
  proof (cases "isUpperUnit c")
    case True
    then have "\<not> isUpperUnit (Char b0 b1 b2 b3 b4 True b6 b7)"
      unfolding Char isUpperUnit_def Let_def
      by (cases b0; cases b1; cases b2; cases b3; cases b4; cases b5; cases b6; cases b7) simp_all
    with True Char show ?thesis by simp
  next
    case False
    with Char show ?thesis by simp
  qed
qed

lemma toLowerCase_idem: "toLowerCase (toLowerCase s) = toLowerCase s"
  by (simp add: toLowerCase_def lowerUnit_idem)

lemma keywordMatch_words:
  "keywordMatch (toLowerCase s) =
     (if toLowerCase s \<in> {''allow'', ''yes'', ''y'', ''ok'', ''approve'', ''1''} then Some Once
      else if toLowerCase s \<in> {''always'', ''forever'', ''permanent'', ''2''} then Some Always
      else if toLowerCase s \<in> {''reject'', ''no'', ''n'', ''deny'', ''cancel'', ''3''} then Some Reject
      else None)"
  unfolding keywordMatch_def testWords_def toLowerCase_idem by simp

lemma reply_examples:
  "parsePermissionReply ''2'' DEFAULT_PERMISSION_OPTIONS = Some Always"
  "parsePermissionReply ''ALLOW'' DEFAULT_PERMISSION_OPTIONS = Some Once"
  "parsePermissionReply ''nah'' DEFAULT_PERMISSION_OPTIONS = None"
  "parsePermissionReply ''2 please'' DEFAULT_PERMISSION_OPTIONS = Some Always"
  by (simp_all add: parsePermissionReply_def DEFAULT_PERMISSION_OPTIONS_def numericMatch_def
      keywordMatch_def testWords_def parseInt10_def decimalValue_def digitValue_def isDigit_def
      toLowerCase_def isUpperUnit_def trim_def isWhiteSpace_def Let_def)

text \<open>
  The rules of \<open>parsePermissionReply\<close> as the code applies them, the first that matches
  deciding. The first option whose label equals the trimmed reply, case ignored, gives its
  decision. If no label matches and \<open>Number.parseInt\<close> reads from the trimmed reply a number
  \<open>k\<close> with \<open>1 \<le> k \<le> |options|\<close>, option \<open>k\<close> gives its decision. Otherwise the key words
  decide, and any other reply gives \<open>null\<close>. What \<open>Number.parseInt\<close> reads is the leading run
  of digits, whatever follows it; a plus sign before the run changes nothing, a minus sign
  makes the number negative.
\<close>

lemma parsePermissionReply_rules:
  "(\<forall>reply opts i.
      i < length opts \<longrightarrow>
      toLowerCase (label (opts ! i)) = toLowerCase (trim reply) \<longrightarrow>
      (\<forall>k<i. toLowerCase (label (opts ! k)) \<noteq> toLowerCase (trim reply)) \<longrightarrow>
      parsePermissionReply reply opts = Some (response (opts ! i)))
   \<and> (\<forall>reply opts k.
      (\<forall>opt \<in> set opts. toLowerCase (label opt) \<noteq> toLowerCase (trim reply)) \<longrightarrow>
      parseInt10 (toLowerCase (trim reply)) = Some k \<longrightarrow> 1 \<le> k \<longrightarrow> k \<le> int (length opts) \<longrightarrow>
      parsePermissionReply reply opts = Some (response (opts ! nat (k - 1))))
   \<and> (\<forall>reply opts.
      (\<forall>opt \<in> set opts. toLowerCase (label opt) \<noteq> toLowerCase (trim reply)) \<longrightarrow>
      (\<forall>k. parseInt10 (toLowerCase (trim reply)) = Some k \<longrightarrow> k < 1 \<or> int (length opts) < k) \<longrightarrow>
      parsePermissionReply reply opts =
        (if toLowerCase (trim reply) \<in> {''allow'', ''yes'', ''y'', ''ok'', ''approve'', ''1''}
           then Some Once
         else if toLowerCase (trim reply) \<in> {''always'', ''forever'', ''permanent'', ''2''}
           then Some Always
         else if toLowerCase (trim reply) \<in> {''reject'', ''no'', ''n'', ''deny'', ''cancel'', ''3''}
           then Some Reject
         else None))
   \<and> (\<forall>ds rest.
      ds \<noteq> [] \<longrightarrow> list_all isDigit ds \<longrightarrow> rest = [] \<or> \<not> isDigit (hd rest) \<longrightarrow>
      parseInt10 (ds @ rest) = Some (int (decimalValue ds)) \<and>
      parseInt10 (CHR ''+'' # ds @ rest) = Some (int (decimalValue ds)) \<and>
      parseInt10 (CHR ''-'' # ds @ rest) = Some (- int (decimalValue ds)))
   \<and> parsePermissionReply ''2'' DEFAULT_PERMISSION_OPTIONS = Some Always
   \<and> parsePermissionReply ''ALLOW'' DEFAULT_PERMISSION_OPTIONS = Some Once
   \<and> parsePermissionReply ''nah'' DEFAULT_PERMISSION_OPTIONS = None
   \<and> parsePermissionReply ''2 please'' DEFAULT_PERMISSION_OPTIONS = Some Always"
proof (intro conjI allI impI)
  fix reply :: string and opts :: "PermissionOption list" and i :: nat
  assume "i < length opts" "toLowerCase (label (opts ! i)) = toLowerCase (trim reply)"
    "\<forall>k<i. toLowerCase (label (opts ! k)) \<noteq> toLowerCase (trim reply)"
  then show "parsePermissionReply reply opts = Some (response (opts ! i))"
    by (rule parsePermissionReply_label)
next
  fix reply :: string and opts :: "PermissionOption list" and k :: int
  assume "\<forall>opt \<in> set opts. toLowerCase (label opt) \<noteq> toLowerCase (trim reply)"
    "parseInt10 (toLowerCase (trim reply)) = Some k" "1 \<le> k" "k \<le> int (length opts)"
  then show "parsePermissionReply reply opts = Some (response (opts ! nat (k - 1)))"
    by (rule parsePermissionReply_numeric)
next
  fix reply :: string and opts :: "PermissionOption list"
  assume "\<forall>opt \<in> set opts. toLowerCase (label opt) \<noteq> toLowerCase (trim reply)"
    "\<forall>k. parseInt10 (toLowerCase (trim reply)) = Some k \<longrightarrow> k < 1 \<or> int (length opts) < k"
  then have "parsePermissionReply reply opts = keywordMatch (toLowerCase (trim reply))"
    by (rule parsePermissionReply_keyword)
  then show "parsePermissionReply reply opts =
        (if toLowerCase (trim reply) \<in> {''allow'', ''yes'', ''y'', ''ok'', ''approve'', ''1''}
           then Some Once
         else if toLowerCase (trim reply) \<in> {''always'', ''forever'', ''permanent'', ''2''}
           then Some Always
         else if toLowerCase (trim reply) \<in> {''reject'', ''no'', ''n'', ''deny'', ''cancel'', ''3''}
           then Some Reject
         else None)"
    by (simp only: keywordMatch_words)
next
  fix ds rest :: string
  assume a: "ds \<noteq> []" "list_all isDigit ds" "rest = [] \<or> \<not> isDigit (hd rest)"
  from parseInt10_leading(1) [OF a]
  show "parseInt10 (ds @ rest) = Some (int (decimalValue ds))" .
  from parseInt10_leading(2) [OF a]
  show "parseInt10 (CHR ''+'' # ds @ rest) = Some (int (decimalValue ds))" .
  from parseInt10_leading(3) [OF a]
  show "parseInt10 (CHR ''-'' # ds @ rest) = Some (- int (decimalValue ds))" .
qed (rule reply_examples)+

text \<open>Each rule at a reply to the default options, and the reading of \<open>2 please\<close>.\<close>

lemma parsePermissionReply_rules_instances:
  "parsePermissionReply '' allow ALWAYS '' DEFAULT_PERMISSION_OPTIONS = Some Always
   \<and> parsePermissionReply ''3'' DEFAULT_PERMISSION_OPTIONS = Some Reject
   \<and> parsePermissionReply ''yes'' DEFAULT_PERMISSION_OPTIONS = Some Once
   \<and> parseInt10 ''2 please'' = Some 2"
proof -
  note byLabel = parsePermissionReply_rules [THEN conjunct1, rule_format]
  note byNumber = parsePermissionReply_rules [THEN conjunct2, THEN conjunct1, rule_format]
  note byWord = parsePermissionReply_rules [THEN conjunct2, THEN conjunct2, THEN conjunct1, rule_format]
  note leading = parsePermissionReply_rules
    [THEN conjunct2, THEN conjunct2, THEN conjunct2, THEN conjunct1, rule_format]
  note ev = DEFAULT_PERMISSION_OPTIONS_def toLowerCase_def isUpperUnit_def trim_def
    isWhiteSpace_def parseInt10_def decimalValue_def digitValue_def isDigit_def Let_def
  have a1: "1 < length DEFAULT_PERMISSION_OPTIONS" by (simp add: ev)
  have a2: "toLowerCase (label (DEFAULT_PERMISSION_OPTIONS ! 1)) = toLowerCase (trim '' allow ALWAYS '')"
    by (simp add: ev)
  have a3: "\<forall>k<1. toLowerCase (label (DEFAULT_PERMISSION_OPTIONS ! k)) \<noteq> toLowerCase (trim '' allow ALWAYS '')"
    by (simp add: ev)
  from byLabel [OF a1 a2 a3 [rule_format]]
  have A: "parsePermissionReply '' allow ALWAYS '' DEFAULT_PERMISSION_OPTIONS = Some Always"
    by (simp add: DEFAULT_PERMISSION_OPTIONS_def)
  have b1: "\<forall>opt \<in> set DEFAULT_PERMISSION_OPTIONS. toLowerCase (label opt) \<noteq> toLowerCase (trim ''3'')"
    by (simp add: ev)
  have b2: "parseInt10 (toLowerCase (trim ''3'')) = Some 3" by (simp add: ev)
  have b3: "(1::int) \<le> 3" "3 \<le> int (length DEFAULT_PERMISSION_OPTIONS)" by (simp_all add: ev)
  from byNumber [OF b1 [rule_format] b2 b3]
  have B: "parsePermissionReply ''3'' DEFAULT_PERMISSION_OPTIONS = Some Reject"
    by (simp add: DEFAULT_PERMISSION_OPTIONS_def)
  have c0: "toLowerCase (trim ''yes'') = ''yes''" by (simp add: ev)
  have c1: "\<forall>opt \<in> set DEFAULT_PERMISSION_OPTIONS. toLowerCase (label opt) \<noteq> toLowerCase (trim ''yes'')"
    by (simp add: ev)
  have c2: "\<forall>k. parseInt10 (toLowerCase (trim ''yes'')) = Some k \<longrightarrow> k < 1 \<or> int (length DEFAULT_PERMISSION_OPTIONS) < k"
    by (simp add: ev)
  from byWord [OF c1 [rule_format] c2 [rule_format]]
  have C: "parsePermissionReply ''yes'' DEFAULT_PERMISSION_OPTIONS = Some Once"
    unfolding c0 by simp
  have d1: "''2'' \<noteq> []" "list_all isDigit ''2''" "'' please'' = [] \<or> \<not> isDigit (hd '' please'')"
    by (simp_all add: isDigit_def)
  from leading [OF d1, THEN conjunct1]
  have D: "parseInt10 ''2 please'' = Some 2"
    by (simp add: decimalValue_def digitValue_def)
  show ?thesis by (intro conjI) (rule A, rule B, rule C, rule D)
qed

text \<open>
  Claim C2. The claim is that a reply decides by the numeric rule only if it parses as an
  integer, and that a reply which is no label, no integer and no key word gives \<open>null\<close>. The
  code departs from it: the replies \<open>2 please\<close> and \<open>2 is wrong, deny\<close> are no option's
  label, are not integers and are no key words, yet \<open>Number.parseInt\<close> reads the leading 2
  from them and the answer is \<open>always\<close>.
\<close>

theorem parsePermissionReply_leading_integer:
  "parsePermissionReply ''2 please'' DEFAULT_PERMISSION_OPTIONS = Some Always
   \<and> parsePermissionReply ''2 is wrong, deny'' DEFAULT_PERMISSION_OPTIONS = Some Always
   \<and> \<not> isIntegerNumeral (toLowerCase (trim ''2 please''))
   \<and> \<not> isIntegerNumeral (toLowerCase (trim ''2 is wrong, deny''))
   \<and> labelMatch (toLowerCase (trim ''2 please'')) DEFAULT_PERMISSION_OPTIONS = None
   \<and> labelMatch (toLowerCase (trim ''2 is wrong, deny'')) DEFAULT_PERMISSION_OPTIONS = None
   \<and> keywordMatch (toLowerCase (trim ''2 please'')) = None
   \<and> keywordMatch (toLowerCase (trim ''2 is wrong, deny'')) = None"
  by (simp add: parsePermissionReply_def DEFAULT_PERMISSION_OPTIONS_def numericMatch_def
      keywordMatch_def testWords_def parseInt10_def decimalValue_def digitValue_def isDigit_def
      toLowerCase_def isUpperUnit_def trim_def isWhiteSpace_def isIntegerNumeral_def Let_def)

section \<open>Facts about control commands\<close>











text \<open>
  A \<open>\u\<close> escape gives the unit its digits denote, whatever its value: the six characters
  \<open>\u2014\<close> between quotation marks parse to the string of the one unit \<open>0x2014\<close>.
\<close>

lemma JSON_parse_unicode_escape:
  "JSON_parse [CHR 0x22, CHR 0x5C, CHR ''u'', CHR ''2'', CHR ''0'', CHR ''1'', CHR ''4'', CHR 0x22]
     = Some (JStr [0x2014])"
  by (simp add: JSON_parse_def isJsonSpace_def isWordChar_def consToken_def parseStep_def
      isHexDigit_def hexValue_def hexDigitValue_def isDigit_def)











section \<open>Facts about the registry under the event hook\<close>

text \<open>
  The hook never tracks the empty id: parts are accumulated only under a message id that is
  not empty, and an id is tracked only when its message has assembled content.
\<close>

lemma getMessageState_other:
  "key \<noteq> mid \<Longrightarrow> snd (getMessageState mid store) key = store key"
  by (simp add: getMessageState_def split: option.splits)

lemma handlePartUpdate_empty_key:
  assumes "store [] = None"
  shows "handlePartUpdate part delta store [] = None"
proof (cases "messageID part")
  case None
  with assms show ?thesis by (simp add: handlePartUpdate_def)
next
  case (Some mid)
  show ?thesis
  proof (cases "mid = []")
    case True
    with Some assms show ?thesis by (simp add: handlePartUpdate_def)
  next
    case False
    obtain state store1 where g: "getMessageState mid store = (state, store1)"
      by (cases "getMessageState mid store")
    from False have "snd (getMessageState mid store) [] = store []"
      by (intro getMessageState_other) auto
    with g assms have s1: "store1 [] = None" by simp
    from False have ne: "[] \<noteq> mid" by auto
    show ?thesis
      using Some False g s1 ne
      by (cases part) (simp_all add: handlePartUpdate_def Let_def)
  qed
qed

lemma buildMessageContent_absent:
  "store mid = None \<Longrightarrow> buildMessageContent store mid = []"
  by (simp add: buildMessageContent_def)

lemma onPartUpdated_invariant:
  assumes "hookInvariant st"
  shows "hookInvariant (fst (onPartUpdated part delta st))"
proof -
  from assms have e: "messagePartsById st [] = None" by (simp add: hookInvariant_def)
  from handlePartUpdate_empty_key [of "messagePartsById st" part delta, OF e] assms
  show ?thesis
    by (cases part) (simp_all add: onPartUpdated_def hookInvariant_def)
qed

lemma onMessageUpdated_registry:
  "sentAssistantMessageIds (fst (onMessageUpdated message st)) = sentAssistantMessageIds st \<and>
   sentAssistantMessageQueue (fst (onMessageUpdated message st)) = sentAssistantMessageQueue st
   \<or>
   buildMessageContent (messagePartsById st) (msgId message) \<noteq> [] \<and>
   (sentAssistantMessageIds (fst (onMessageUpdated message st)),
    sentAssistantMessageQueue (fst (onMessageUpdated message st)))
     = trackSentMessage (sentAssistantMessageIds st, sentAssistantMessageQueue st) (msgId message)"
  by (cases "agent message")
     (auto simp: onMessageUpdated_def Let_def split: prod.splits if_splits)

lemma onMessageUpdated_store:
  "messagePartsById (fst (onMessageUpdated message st)) = messagePartsById st \<or>
   messagePartsById (fst (onMessageUpdated message st))
     = (messagePartsById st)(msgId message := None)"
  by (cases "agent message")
     (auto simp: onMessageUpdated_def Let_def split: prod.splits if_splits)

lemma onMessageUpdated_invariant:
  assumes "hookInvariant st"
  shows "hookInvariant (fst (onMessageUpdated message st))"
proof -
  let ?st' = "fst (onMessageUpdated message st)"
  from assms have e: "messagePartsById st [] = None"
    and q: "[] \<notin> set (sentAssistantMessageQueue st)"
    and r: "registryInvariant (sentAssistantMessageIds st, sentAssistantMessageQueue st)"
    by (simp_all add: hookInvariant_def)
  from onMessageUpdated_store [of message st] e
  have e': "messagePartsById ?st' [] = None" by auto
  from onMessageUpdated_registry [of message st]
  have "[] \<notin> set (sentAssistantMessageQueue ?st') \<and>
        registryInvariant (sentAssistantMessageIds ?st', sentAssistantMessageQueue ?st')"
  proof
    assume "sentAssistantMessageIds ?st' = sentAssistantMessageIds st \<and>
            sentAssistantMessageQueue ?st' = sentAssistantMessageQueue st"
    with q r show ?thesis by simp
  next
    assume t: "buildMessageContent (messagePartsById st) (msgId message) \<noteq> [] \<and>
      (sentAssistantMessageIds ?st', sentAssistantMessageQueue ?st')
        = trackSentMessage (sentAssistantMessageIds st, sentAssistantMessageQueue st) (msgId message)"
    then have "messagePartsById st (msgId message) \<noteq> None"
      using buildMessageContent_absent [of "messagePartsById st" "msgId message"] by auto
    with e have ne: "msgId message \<noteq> []" by auto
    from q have q': "[] \<notin> set (snd (sentAssistantMessageIds st, sentAssistantMessageQueue st))"
      by simp
    from track_invariant [OF r q' ne] t show ?thesis by (metis snd_conv)
  qed
  with e' show ?thesis by (simp add: hookInvariant_def)
qed

lemma runEvents_invariant:
  "hookInvariant st \<Longrightarrow> hookInvariant (fst (runEvents events st))"
proof (induction events arbitrary: st)
  case Nil
  then show ?case by simp
next
  case (Cons e es)
  have "hookInvariant (fst (onEvent e st))"
    using Cons.prems onPartUpdated_invariant onMessageUpdated_invariant
    by (cases e) simp_all
  from Cons.IH [OF this] show ?case
    by (cases "onEvent e st"; cases "runEvents es (fst (onEvent e st))") simp
qed

lemma runEvents_append:
  "fst (runEvents (as @ bs) st) = fst (runEvents bs (fst (runEvents as st)))"
proof (induction as arbitrary: st)
  case Nil
  show ?case by simp
next
  case (Cons e es)
  show ?case
    using Cons.IH [of "fst (onEvent e st)"]
    by (cases "onEvent e st"; cases "runEvents es (fst (onEvent e st))";
        cases "runEvents (es @ bs) (fst (onEvent e st))") simp
qed

lemma textPart_store:
  "mid \<noteq> [] \<Longrightarrow>
     handlePartUpdate (TextPart ''p1'' (Some mid) ''x'') None Map.empty
       = [mid \<mapsto> \<lparr>order = [''p1''], parts = [''p1'' \<mapsto> ''x''], textByPartId = [''p1'' \<mapsto> ''x'']\<rparr>]"
  by (simp add: handlePartUpdate_def getMessageState_def emptyState_def setPartContent_def Let_def)

lemma textPart_content:
  "buildMessageContent
     [mid \<mapsto> \<lparr>order = [''p1''], parts = [''p1'' \<mapsto> ''x''], textByPartId = [''p1'' \<mapsto> ''x'']\<rparr>] mid
     = ''x''"
  by (simp add: buildMessageContent_def keptPart_def trim_def isWhiteSpace_def)

lemma completeEvents_tracks:
  assumes mid: "mid \<noteq> []" and empty: "messagePartsById st = Map.empty"
  shows "messagePartsById (fst (runEvents (completeEvents mid) st)) = Map.empty \<and>
         (sentAssistantMessageIds (fst (runEvents (completeEvents mid) st)),
          sentAssistantMessageQueue (fst (runEvents (completeEvents mid) st)))
           = trackSentMessage (sentAssistantMessageIds st, sentAssistantMessageQueue st) mid"
proof -
  let ?one = "[mid \<mapsto> \<lparr>order = [''p1''], parts = [''p1'' \<mapsto> ''x''], textByPartId = [''p1'' \<mapsto> ''x'']\<rparr>]"
  let ?st1 = "st\<lparr>messagePartsById := ?one\<rparr>"
  let ?m = "\<lparr>msgId = mid, role = ''assistant'', agent = None, timeCompleted = Some 1\<rparr>"
  have p: "onPartUpdated (TextPart ''p1'' (Some mid) ''x'') None st = (?st1, [])"
    using textPart_store [OF mid] empty by (simp add: onPartUpdated_def)
  have del: "?one(mid := None) = Map.empty" by simp
  obtain ids queue where t: "trackSentMessage (sentAssistantMessageIds st, sentAssistantMessageQueue st) mid = (ids, queue)"
    by (cases "trackSentMessage (sentAssistantMessageIds st, sentAssistantMessageQueue st) mid")
  have m: "messagePartsById (fst (onMessageUpdated ?m ?st1)) = Map.empty \<and>
           (sentAssistantMessageIds (fst (onMessageUpdated ?m ?st1)),
            sentAssistantMessageQueue (fst (onMessageUpdated ?m ?st1))) = (ids, queue)"
  proof (cases "mid \<in> sentAssistantMessageIds st")
    case True
    with t have "(ids, queue) = (sentAssistantMessageIds st, sentAssistantMessageQueue st)"
      by (simp add: track_known)
    with True show ?thesis
      by (simp add: onMessageUpdated_def Let_def textPart_content del)
  next
    case False
    with t show ?thesis
      by (simp add: onMessageUpdated_def Let_def textPart_content del)
  qed
  have "fst (runEvents (completeEvents mid) st) = fst (onMessageUpdated ?m ?st1)"
    by (cases "onMessageUpdated ?m ?st1") (simp add: completeEvents_def p)
  with m t show ?thesis by simp
qed

lemma completeEvents_all:
  "[] \<notin> set mids \<Longrightarrow> messagePartsById st = Map.empty \<Longrightarrow>
     messagePartsById (fst (runEvents (concat (map completeEvents mids)) st)) = Map.empty \<and>
     (sentAssistantMessageIds (fst (runEvents (concat (map completeEvents mids)) st)),
      sentAssistantMessageQueue (fst (runEvents (concat (map completeEvents mids)) st)))
       = trackAll (sentAssistantMessageIds st, sentAssistantMessageQueue st) mids"
proof (induction mids arbitrary: st)
  case Nil
  then show ?case by (simp add: trackAll_def)
next
  case (Cons m ms)
  let ?st1 = "fst (runEvents (completeEvents m) st)"
  from Cons.prems have m: "m \<noteq> []" and ms: "[] \<notin> set ms" by auto
  from completeEvents_tracks [OF m Cons.prems(2)]
  have e1: "messagePartsById ?st1 = Map.empty"
    and r1: "(sentAssistantMessageIds ?st1, sentAssistantMessageQueue ?st1)
               = trackSentMessage (sentAssistantMessageIds st, sentAssistantMessageQueue st) m"
    by simp_all
  have "fst (runEvents (concat (map completeEvents (m # ms))) st)
          = fst (runEvents (concat (map completeEvents ms)) ?st1)"
    using runEvents_append [of "completeEvents m" "concat (map completeEvents ms)" st] by simp
  with Cons.IH [OF ms e1] r1 show ?case by (simp add: trackAll_def)
qed

lemma registryAfter_completeEvents:
  "[] \<notin> set mids \<Longrightarrow> registryAfter (concat (map completeEvents mids)) = trackAll ({}, []) mids"
  using completeEvents_all [of mids initialState]
  by (simp add: registryAfter_def initialState_def)

lemma registryAfter_invariant:
  "registryInvariant (registryAfter events)" "[] \<notin> set (snd (registryAfter events))"
proof -
  have "hookInvariant initialState"
    by (simp add: hookInvariant_def initialState_def registryInvariant_def)
  from runEvents_invariant [OF this, of events]
  show "registryInvariant (registryAfter events)" "[] \<notin> set (snd (registryAfter events))"
    by (simp_all add: hookInvariant_def registryAfter_def)
qed




text \<open>
  Claim C9. The plugin tracks an id only in the case \<open>message.updated\<close> of its hook, so the
  track operations it performs are those of the runs of its events. After any such run from
  the initial state, the set holds exactly the ids of the queue, the queue holds no id twice,
  and neither holds more than 200. The runs realise every sequence of track operations on ids
  that are not the empty string, and after any such sequence from the empty registry the same
  holds.
\<close>

theorem sentMessage_registry_invariant:
  "(\<forall>events.
      fst (registryAfter events) = set (snd (registryAfter events)) \<and>
      distinct (snd (registryAfter events)) \<and>
      length (snd (registryAfter events)) \<le> 200 \<and>
      card (fst (registryAfter events)) \<le> 200)
   \<and> (\<forall>messageIds. [] \<notin> set messageIds \<longrightarrow>
      registryAfter (concat (map completeEvents messageIds)) = trackAll ({}, []) messageIds)
   \<and> (\<forall>messageIds. [] \<notin> set messageIds \<longrightarrow>
      fst (trackAll ({}, []) messageIds) = set (snd (trackAll ({}, []) messageIds)) \<and>
      distinct (snd (trackAll ({}, []) messageIds)) \<and>
      length (snd (trackAll ({}, []) messageIds)) \<le> 200 \<and>
      card (fst (trackAll ({}, []) messageIds)) \<le> 200)"
proof (intro conjI allI impI)
  fix events :: "Event list"
  from registryAfter_invariant(1) [of events]
  show "fst (registryAfter events) = set (snd (registryAfter events))"
    and "distinct (snd (registryAfter events))"
    and "length (snd (registryAfter events)) \<le> 200"
    and "card (fst (registryAfter events)) \<le> 200"
    by (cases "registryAfter events"; simp add: registryInvariant_def MAX_SENT_MESSAGE_IDS_def)+
next
  fix messageIds :: "string list"
  assume "[] \<notin> set messageIds"
  then show "registryAfter (concat (map completeEvents messageIds)) = trackAll ({}, []) messageIds"
    by (rule registryAfter_completeEvents)
next
  fix messageIds :: "string list"
  assume ne: "[] \<notin> set messageIds"
  have "registryInvariant ({}, [])" by (simp add: registryInvariant_def)
  with ne have "registryInvariant (trackAll ({}, []) messageIds)"
    using trackAll_invariant_from [of "({}, [])" messageIds] by simp
  then show "fst (trackAll ({}, []) messageIds) = set (snd (trackAll ({}, []) messageIds))"
    and "distinct (snd (trackAll ({}, []) messageIds))"
    and "length (snd (trackAll ({}, []) messageIds)) \<le> 200"
    and "card (fst (trackAll ({}, []) messageIds)) \<le> 200"
    by (cases "trackAll ({}, []) messageIds"; simp add: registryInvariant_def MAX_SENT_MESSAGE_IDS_def)+
qed

text \<open>
  The same at a run of 202 completed messages that overflows the registry and repeats an id.
\<close>

theorem sentMessage_registry_invariant_witness:
  "[] \<notin> set (exampleIds @ [''new'', ''m'']) \<and>
   registryAfter (concat (map completeEvents (exampleIds @ [''new'', ''m''])))
     = trackAll ({}, []) (exampleIds @ [''new'', ''m'']) \<and>
   fst (trackAll ({}, []) (exampleIds @ [''new'', ''m'']))
     = set (snd (trackAll ({}, []) (exampleIds @ [''new'', ''m'']))) \<and>
   distinct (snd (trackAll ({}, []) (exampleIds @ [''new'', ''m'']))) \<and>
   length (snd (trackAll ({}, []) (exampleIds @ [''new'', ''m'']))) \<le> 200 \<and>
   card (fst (trackAll ({}, []) (exampleIds @ [''new'', ''m'']))) \<le> 200 \<and>
   distinct (snd (registryAfter (concat (map completeEvents (exampleIds @ [''new'', ''m''])))))"
proof -
  let ?ids = "exampleIds @ [''new'', ''m'']"
  note reached = sentMessage_registry_invariant [THEN conjunct1, rule_format]
  note realised = sentMessage_registry_invariant [THEN conjunct2, THEN conjunct1, rule_format]
  note tracked = sentMessage_registry_invariant [THEN conjunct2, THEN conjunct2, rule_format]
  have h: "[] \<notin> set ?ids" using exampleIds_facts by simp
  have d: "distinct (snd (registryAfter (concat (map completeEvents ?ids))))"
    by (rule reached [THEN conjunct2, THEN conjunct1])
  note tr = tracked [OF h]
  note t = tr [THEN conjunct1] tr [THEN conjunct2, THEN conjunct1]
    tr [THEN conjunct2, THEN conjunct2, THEN conjunct1]
    tr [THEN conjunct2, THEN conjunct2, THEN conjunct2]
  show ?thesis
    by (intro conjI) (rule h, rule realised [OF h], rule t(1), rule t(2), rule t(3), rule t(4), rule d)
qed

text \<open>
  A remark on \<open>trackSentMessage\<close> taken alone, outside what the hook does. Were the empty id
  tracked, \<open>if (evicted)\<close> would not pass for it when it is shifted out of the queue, and it
  would stay in the set. The hook never tracks it, as the facts above show.
\<close>

lemma trackAll_empty_id_latent:
  "trackAll ({}, []) ([] # exampleIds) = (insert [] (set exampleIds), exampleIds) \<and>
   [] \<in> fst (trackAll ({}, []) ([] # exampleIds)) \<and>
   [] \<notin> set (snd (trackAll ({}, []) ([] # exampleIds))) \<and>
   fst (trackAll ({}, []) ([] # exampleIds)) \<noteq> set (snd (trackAll ({}, []) ([] # exampleIds))) \<and>
   card (fst (trackAll ({}, []) ([] # exampleIds))) = 201"
proof -
  have ne: "exampleIds \<noteq> []" and d: "distinct exampleIds" and l: "length exampleIds = 200"
    and nn: "[] \<notin> set exampleIds"
    by (rule exampleIds_facts)+
  from ne obtain bs b where eq: "exampleIds = bs @ [b]"
    by (metis rev_exhaust)
  from d have db: "distinct bs" and bn: "b \<notin> set bs" unfolding eq by simp_all
  from nn have nb: "[] \<notin> set bs" and bne: "b \<noteq> []" unfolding eq by auto
  from l have lb: "length bs = 199" unfolding eq by simp
  have df: "distinct ([] # bs)" using db nb by simp
  have lf: "length ([] # bs) = 200" using lb by simp
  have front: "trackAll ({}, []) ([] # bs) = (set ([] # bs), [] # bs)"
    using df lf by (intro trackAll_fresh) simp_all
  have fresh: "b \<notin> set ([] # bs)" using bn bne by auto
  have step: "trackSentMessage (set ([] # bs), [] # bs) b = (insert b (set ([] # bs)), bs @ [b])"
    using track_full [OF fresh lf] by simp
  have "trackAll ({}, []) (([] # bs) @ [b]) = trackSentMessage (trackAll ({}, []) ([] # bs)) b"
    by (rule trackAll_snoc)
  with front step have "trackAll ({}, []) ([] # bs @ [b]) = (insert b (set ([] # bs)), bs @ [b])"
    by simp
  moreover have "insert b (set ([] # bs)) = insert [] (set (bs @ [b]))" by auto
  ultimately have r: "trackAll ({}, []) ([] # exampleIds) = (insert [] (set exampleIds), exampleIds)"
    unfolding eq by simp
  have c: "card (insert [] (set exampleIds)) = 201"
    using nn distinct_card [OF d] l by simp
  from nn have "insert [] (set exampleIds) \<noteq> set exampleIds" by auto
  with r c nn show ?thesis by simp
qed

end
